theory Spec2Isabelle
  imports Complex_Main "HOL-Library.AList" "HOL-Library.Multiset" "HOL-Library.Word"
begin

chapter \<open>Dunn's post-hoc test, Holm adjustment and compact letter display\<close>

text \<open>
  A shallow embedding of \<^verbatim>\<open>AuxFunctions\<close> in
  \<^verbatim>\<open>notebooks/src/auxiliar_functions.py\<close>: \<^verbatim>\<open>holm_adjust\<close>,
  \<^verbatim>\<open>dunn_posthoc\<close> and \<^verbatim>\<open>cld_letters\<close>.

  Conventions of the model.
  \<^item> A Python \<^verbatim>\<open>float\<close> is a \<^typ>\<open>real\<close>: arithmetic is exact, and the IEEE
    values nan and \<open>\<plusminus>\<close>inf are not represented. The one place where numpy produces
    such a value on real input is the division of line 74 when the variance term is
    zero; it is discussed at \<open>pair_p\<close>.
  \<^item> A Python \<^verbatim>\<open>dict\<close> that is iterated is an association list in insertion order
    whose keys are distinct; a \<^verbatim>\<open>dict\<close> that is only looked up is a map.
  \<^item> A Python \<^verbatim>\<open>str\<close> built by the program is the list of its code points.
  \<^item> Every \<^verbatim>\<open>raise\<close> is a value \<open>Inl e\<close> of the result type.
\<close>

section \<open>Errors, strings and group identifiers\<close>

text \<open>
  All four failures are Python \<^verbatim>\<open>ValueError\<close>s; the constructor records the place
  that raises: \<^verbatim>\<open>np.concatenate\<close> on an empty list (line 44), \<^verbatim>\<open>float(z)\<close> on an
  identifier that is not numeric (lines 91 and 109), the explicit \<^verbatim>\<open>raise\<close> of
  line 87, and \<^verbatim>\<open>chr\<close> beyond the last code point (line 122).
\<close>

datatype error =
    ValueError_concatenate
  | ValueError_float
  | ValueError_p_adjust
  | ValueError_chr

type_synonym pystr = "nat list"

text \<open>The code points of an ASCII literal: \<open>str ''ab'' = [97, 98]\<close>.\<close>

definition str :: "string \<Rightarrow> pystr" where
  "str s = map of_char s"

text \<open>
  \<^verbatim>\<open>chr(i)\<close> is defined for \<open>0 \<le> i \<le> 0x10FFFF\<close> and raises \<^verbatim>\<open>ValueError\<close> above.
\<close>

definition py_chr :: "nat \<Rightarrow> error + nat" where
  "py_chr i = (if i < 1114112 then Inr i else Inl ValueError_chr)"

text \<open>
  \<^verbatim>\<open>str.lower()\<close> on the method name. The name is a byte string here and only
  \<^verbatim>\<open>A\<close>..\<^verbatim>\<open>Z\<close> are mapped; the comparison with \<^verbatim>\<open>"holm"\<close> and \<^verbatim>\<open>"bonferroni"\<close>
  is the same as Python's, since no other character lower-cases to one of their letters.
\<close>

definition lower_char :: "char \<Rightarrow> char" where
  "lower_char c =
     (let n = (of_char c :: nat) in if 65 \<le> n \<and> n \<le> 90 then char_of (n + 32) else c)"

definition str_lower :: "string \<Rightarrow> string" where
  "str_lower s = map lower_char s"

text \<open>
  The functions are polymorphic in the type \<open>'g\<close> of group identifiers and take
  Python's \<^verbatim>\<open>float()\<close> on identifiers as the parameter \<open>to_float\<close>, \<open>None\<close> where
  \<^verbatim>\<open>float\<close> raises. For concrete inputs, an identifier is a number (a float or an
  int, with its value), a numeric string such as \<^verbatim>\<open>"1"\<close> together with the value
  \<^verbatim>\<open>float\<close> gives it, or a label that \<^verbatim>\<open>float\<close> rejects, such as \<^verbatim>\<open>"A"\<close>. The
  string \<^verbatim>\<open>"1"\<close> and the number \<^verbatim>\<open>1.0\<close> are different dictionary keys with the
  same numeric value.
\<close>

datatype group_id = Numeric real | NumericStr string real | Label string

fun py_float :: "group_id \<Rightarrow> real option" where
  "py_float (Numeric x) = Some x"
| "py_float (NumericStr s x) = Some x"
| "py_float (Label s) = None"

text \<open>
  \<^verbatim>\<open>tuple(sorted((g, h), key=lambda z: float(z)))\<close> (lines 91 and 109). Both keys are
  computed first; the stable sort then swaps the two exactly when the second key is
  smaller.
\<close>

definition sorted_pair :: "('g \<Rightarrow> real option) \<Rightarrow> 'g \<Rightarrow> 'g \<Rightarrow> error + ('g \<times> 'g)" where
  "sorted_pair to_float g h =
     (case to_float g of
        None \<Rightarrow> Inl ValueError_float
      | Some x \<Rightarrow>
          (case to_float h of
             None \<Rightarrow> Inl ValueError_float
           | Some y \<Rightarrow> Inr (if y < x then (h, g) else (g, h))))"

section \<open>\<^verbatim>\<open>holm_adjust\<close> (lines 7--27)\<close>

text \<open>
  \<^verbatim>\<open>np.argsort(pvals)\<close>. numpy's default sort is not stable, so the order of tied
  indices is its choice; \<open>holm_with\<close> therefore takes the order as an argument, and
  \<open>holm_with_any_order\<close> below shows that the result is the same for every order that
  sorts the p-values. The model's order is the stable one.
\<close>

definition argsort :: "real list \<Rightarrow> nat list" where
  "argsort pvals = sort_key (\<lambda>i. pvals ! i) [0..<length pvals]"

text \<open>\<^verbatim>\<open>np.maximum.accumulate\<close>: the running maximum.\<close>

fun accumulate_from :: "real \<Rightarrow> real list \<Rightarrow> real list" where
  "accumulate_from a [] = []"
| "accumulate_from a (x # xs) = max a x # accumulate_from (max a x) xs"

fun maximum_accumulate :: "real list \<Rightarrow> real list" where
  "maximum_accumulate [] = []"
| "maximum_accumulate (x # xs) = x # accumulate_from x xs"

text \<open>\<^verbatim>\<open>np.clip(v, lo, hi)\<close> is \<^verbatim>\<open>minimum(hi, maximum(lo, v))\<close>.\<close>

definition clip :: "real \<Rightarrow> real \<Rightarrow> real \<Rightarrow> real" where
  "clip lo hi v = min hi (max lo v)"

text \<open>\<^verbatim>\<open>out[order] = adjusted\<close>, one assignment after the other.\<close>

fun scatter :: "nat list \<Rightarrow> real list \<Rightarrow> real list \<Rightarrow> real list" where
  "scatter (k # ks) (v # vs) out = scatter ks vs (out[k := v])"
| "scatter _ _ out = out"

text \<open>
  The body of \<^verbatim>\<open>holm_adjust\<close> after \<^verbatim>\<open>order\<close> is known. \<^verbatim>\<open>np.empty(m)\<close> is
  \<open>replicate m 0\<close>: every cell is overwritten by the scatter.
\<close>

definition holm_with :: "nat list \<Rightarrow> real list \<Rightarrow> real list" where
  "holm_with order pvals =
     (let m = length pvals;
          ranked = map (\<lambda>k. pvals ! k) order;
          adjusted = map (\<lambda>(i, p). real (m - i) * p) (enumerate 0 ranked);
          adjusted = maximum_accumulate adjusted;
          adjusted = map (clip 0 1) adjusted
      in scatter order adjusted (replicate m 0))"

definition holm_adjust :: "real list \<Rightarrow> real list" where
  "holm_adjust pvals = holm_with (argsort pvals) pvals"

text \<open>The position of an index in an order (used in the proofs only).\<close>

definition position_in :: "nat list \<Rightarrow> nat \<Rightarrow> nat" where
  "position_in order k = length (takeWhile (\<lambda>j. j \<noteq> k) order)"

text \<open>
  The specification's wording of the adjustment, stated without the functions of the
  implementation. An order sorts the indices by ascending p-value when it lists every
  index \<open>0, \<dots>, m - 1\<close> once and the p-values do not decrease along it.
\<close>

definition ascending_order :: "nat list \<Rightarrow> real list \<Rightarrow> bool" where
  "ascending_order order pvals \<longleftrightarrow>
     sort order = [0..<length pvals] \<and> sorted (map (\<lambda>k. pvals ! k) order)"

text \<open>
  \<open>out\<close> is the adjustment of \<open>pvals\<close> along \<open>order\<close>: for the \<open>i\<close>-th smallest
  p-value \<open>p\<close> the candidate is \<open>(m - i) * p\<close>; the running maximum of the candidates
  over the sorted order is limited to \<open>[0, 1]\<close> and stored at the original index
  \<open>order ! i\<close>.
\<close>

definition holm_spec :: "nat list \<Rightarrow> real list \<Rightarrow> real list \<Rightarrow> bool" where
  "holm_spec order pvals out \<longleftrightarrow>
     (let m = length pvals;
          smallest = (\<lambda>i. pvals ! (order ! i));
          candidate = (\<lambda>i. real (m - i) * smallest i);
          running = (\<lambda>i. Max (candidate ` {0..i}))
      in length out = m \<and>
         list_all (\<lambda>i. out ! (order ! i) = min 1 (max 0 (running i))) [0..<m])"

section \<open>\<^verbatim>\<open>dunn_posthoc\<close> (lines 29--93)\<close>

text \<open>
  \<^verbatim>\<open>scipy.stats.rankdata(x)\<close> with its default method: the rank of a value is the
  mean of the positions its ties occupy in the sorted sample, that is the number of
  smaller values plus half of the number of equal values plus one.
\<close>

definition rankdata :: "real list \<Rightarrow> real list" where
  "rankdata x =
     map (\<lambda>v. real (length (filter (\<lambda>u. u < v) x))
              + (real (length (filter (\<lambda>u. u = v) x)) + 1) / 2) x"

text \<open>
  \<^verbatim>\<open>scipy.stats.norm.sf\<close>, the survival function \<open>1 - \<Phi>\<close> of the standard normal
  distribution, by the Maclaurin series of \<open>\<Phi>\<close>.
\<close>

definition norm_sf :: "real \<Rightarrow> real" where
  "norm_sf z =
     1 / 2 - (\<Sum>n. (- 1) ^ n * z ^ (2 * n + 1) / (fact n * 2 ^ n * real (2 * n + 1))) / sqrt (2 * pi)"

text \<open>
  Lines 56--58. \<^verbatim>\<open>np.unique(x, return_counts=True)\<close> gives the multiplicity of each
  distinct value, in increasing order of the values, as an array of 64-bit integers.
  \<^verbatim>\<open>counts**3 - counts\<close> and \<^verbatim>\<open>np.sum\<close> are computed in that type and wrap
  around silently; \<^verbatim>\<open>tie_term\<close> is read as a signed value when it is divided.
\<close>

definition unique_counts :: "real list \<Rightarrow> 64 word list" where
  "unique_counts x = map (\<lambda>v. of_nat (count_list x v)) (sort (remdups x))"

definition tie_term :: "real list \<Rightarrow> 64 word" where
  "tie_term x = sum_list (map (\<lambda>c. c ^ 3 - c) (unique_counts x))"

text \<open>
  The divisor \<^verbatim>\<open>N**3 - N\<close> of line 58 is a Python integer and is exact. The
  quotient of the signed tie term by it is a floating-point division, taken here as
  the division of reals. A divisor of \<open>2\<^sup>6\<^sup>3\<close> or more (more than \<open>2\<^sup>2\<^sup>1\<close> observations)
  does not fit the 64-bit type of \<^verbatim>\<open>tie_term\<close>: NumPy 1 converts both operands to
  floating point, which is the quotient below, and NumPy 2 raises
  \<^verbatim>\<open>OverflowError\<close> there.
\<close>

definition tie_divisor :: "nat \<Rightarrow> int" where
  "tie_divisor N = int N ^ 3 - int N"

definition tie_correction :: "real list \<Rightarrow> real" where
  "tie_correction x =
     (let N = length x
      in if N > 1 then 1 - real_of_int (sint (tie_term x)) / real_of_int (tie_divisor N) else 1)"

text \<open>
  For comparison, the tie term of the specification: the sum of \<open>t\<^sup>3 - t\<close> over the
  multiplicities \<open>t\<close> of the distinct pooled values, as an integer.
\<close>

definition tie_sum :: "real list \<Rightarrow> int" where
  "tie_sum x = (\<Sum>v\<in>set x. int (count_list x v) ^ 3 - int (count_list x v))"

text \<open>
  Lines 37--45. \<open>groups\<close> is the dictionary as a list of (identifier, observations);
  \<^verbatim>\<open>np.concatenate\<close> raises on an empty list of arrays.
\<close>

definition group_labels :: "('g \<times> real list) list \<Rightarrow> 'g list" where
  "group_labels groups = concat (map (\<lambda>(g, arr). replicate (length arr) g) groups)"

definition concatenate :: "real list list \<Rightarrow> error + real list" where
  "concatenate arrays = (if arrays = [] then Inl ValueError_concatenate else Inr (concat arrays))"

text \<open>\<^verbatim>\<open>np.sum(labels == g)\<close> and \<^verbatim>\<open>np.sum(r[labels == g])\<close> (lines 52--53).\<close>

definition group_size :: "'g list \<Rightarrow> 'g \<Rightarrow> nat" where
  "group_size labels g = length (filter (\<lambda>l. l = g) labels)"

definition rank_sum :: "real list \<Rightarrow> 'g list \<Rightarrow> 'g \<Rightarrow> real" where
  "rank_sum r labels g = sum_list (map fst (filter (\<lambda>(ri, l). l = g) (zip r labels)))"

text \<open>
  Lines 72--75 for one pair. When the variance term is zero (all pooled values are
  equal, the tie term not having wrapped around) numpy divides by zero and yields
  nan; the model has HOL's \<open>x / 0 = 0\<close> there.
  Statements about the keys and the number of entries do not depend on the value;
  the statement about a p-value below excludes that case by a hypothesis
  (\<open>tie_correction_pos\<close>, \<open>tie_correction_constant\<close>).
\<close>

definition pair_p :: "real \<Rightarrow> real list \<Rightarrow> 'g list \<Rightarrow> 'g \<Rightarrow> 'g \<Rightarrow> real" where
  "pair_p var r labels g1 g2 =
     (let n1 = real (group_size labels g1);
          n2 = real (group_size labels g2);
          mean_r1 = rank_sum r labels g1 / n1;
          mean_r2 = rank_sum r labels g2 / n2;
          z = (mean_r1 - mean_r2) / sqrt (var * (1 / n1 + 1 / n2))
      in 2 * norm_sf \<bar>z\<bar>)"

text \<open>The two nested loops of lines 66--77 with the \<^verbatim>\<open>continue\<close> of line 71.\<close>

definition tested_pairs :: "'g list \<Rightarrow> 'g list \<Rightarrow> ('g \<times> 'g) list" where
  "tested_pairs group_keys labels =
     [(group_keys ! i, group_keys ! j).
        i \<leftarrow> [0..<length group_keys],
        j \<leftarrow> [i + 1..<length group_keys],
        \<not> (group_size labels (group_keys ! i) = 0 \<or> group_size labels (group_keys ! j) = 0)]"

text \<open>Lines 82--87.\<close>

definition adjust :: "string \<Rightarrow> real list \<Rightarrow> error + real list" where
  "adjust p_adjust raw_p =
     (if str_lower p_adjust = ''holm'' then Inr (holm_adjust raw_p)
      else if str_lower p_adjust = ''bonferroni''
           then Inr (map (\<lambda>p. clip 0 1 (p * real (length raw_p))) raw_p)
      else Inl ValueError_p_adjust)"

text \<open>
  Lines 89--92: the output dictionary, in insertion order; \<^verbatim>\<open>out[key] = p\<close>
  replaces the value of a key that is present and appends a new key otherwise.
\<close>

fun build_out ::
  "('g \<Rightarrow> real option) \<Rightarrow> (('g \<times> 'g) \<times> real) list \<Rightarrow> (('g \<times> 'g) \<times> real) list \<Rightarrow>
   error + (('g \<times> 'g) \<times> real) list" where
  "build_out to_float [] out = Inr out"
| "build_out to_float (((g1, g2), p) # rest) out =
     (case sorted_pair to_float g1 g2 of
        Inl e \<Rightarrow> Inl e
      | Inr key \<Rightarrow> build_out to_float rest (AList.update key p out))"

definition dunn_posthoc ::
  "('g \<Rightarrow> real option) \<Rightarrow> ('g \<times> real list) list \<Rightarrow> string \<Rightarrow>
   error + (('g \<times> 'g) \<times> real) list" where
  "dunn_posthoc to_float groups p_adjust =
     (let group_keys = map fst groups;
          labels = group_labels groups
      in case concatenate (map snd groups) of
           Inl e \<Rightarrow> Inl e
         | Inr x \<Rightarrow>
            (let r = rankdata x;
                 N = length x;
                 var = (real N * (real N + 1) / 12) * tie_correction x;
                 pairs = tested_pairs group_keys labels;
                 raw_p = map (\<lambda>(g1, g2). pair_p var r labels g1 g2) pairs
             in case adjust p_adjust raw_p of
                  Inl e \<Rightarrow> Inl e
                | Inr adj_p \<Rightarrow> build_out to_float (zip pairs adj_p) []))"

text \<open>
  For the statements about the keys of the result: the pairs (earlier, later) of a
  list, in the order of the two nested loops, and the groups with at least one
  observation, in dictionary order.
\<close>

fun all_pairs :: "'a list \<Rightarrow> ('a \<times> 'a) list" where
  "all_pairs [] = []"
| "all_pairs (x # xs) = map (Pair x) xs @ all_pairs xs"

definition nonempty_groups :: "('g \<times> real list) list \<Rightarrow> 'g list" where
  "nonempty_groups groups = map fst (filter (\<lambda>(g, arr). arr \<noteq> []) groups)"

text \<open>The key under which line 92 stores a tested pair.\<close>

definition canonical :: "('g \<Rightarrow> real option) \<Rightarrow> 'g \<times> 'g \<Rightarrow> 'g \<times> 'g" where
  "canonical to_float p =
     (case p of (a, b) \<Rightarrow> (case sorted_pair to_float a b of Inr key \<Rightarrow> key | Inl e \<Rightarrow> (a, b)))"

section \<open>\<^verbatim>\<open>cld_letters\<close> (lines 95--133)\<close>

text \<open>
  The closure \<^verbatim>\<open>nonsig\<close> (lines 108--110): \<^verbatim>\<open>pvals.get(key, 1.0) >= alpha\<close> at the
  sorted pair. \<open>pair_pvalue\<close> is the value that is compared.
\<close>

definition pair_pvalue ::
  "('g \<Rightarrow> real option) \<Rightarrow> ('g \<times> 'g \<rightharpoonup> real) \<Rightarrow> 'g \<Rightarrow> 'g \<Rightarrow> error + real" where
  "pair_pvalue to_float pvals g h =
     (case sorted_pair to_float g h of
        Inl e \<Rightarrow> Inl e
      | Inr key \<Rightarrow> Inr (case pvals key of None \<Rightarrow> 1 | Some p \<Rightarrow> p))"

definition nonsig ::
  "('g \<Rightarrow> real option) \<Rightarrow> ('g \<times> 'g \<rightharpoonup> real) \<Rightarrow> real \<Rightarrow> 'g \<Rightarrow> 'g \<Rightarrow> error + bool" where
  "nonsig to_float pvals alpha g h =
     (case pair_pvalue to_float pvals g h of
        Inl e \<Rightarrow> Inl e
      | Inr p \<Rightarrow> Inr (p \<ge> alpha))"

text \<open>
  \<^verbatim>\<open>all(f(x) for x in xs)\<close>: evaluation stops at the first false element, and an
  exception raised by an element that is reached propagates.
\<close>

fun py_all :: "('a \<Rightarrow> error + bool) \<Rightarrow> 'a list \<Rightarrow> error + bool" where
  "py_all f [] = Inr True"
| "py_all f (x # xs) =
     (case f x of
        Inl e \<Rightarrow> Inl e
      | Inr b \<Rightarrow> if b then py_all f xs else Inr False)"

text \<open>
  The state of the main loop is the dictionary \<^verbatim>\<open>letters\<close>, a function that is
  \<open>[]\<close> (the empty string) on every group at the start, and \<^verbatim>\<open>letter_list\<close>. A
  letter is one code point, so \<^verbatim>\<open>L in letters[h]\<close> is membership.

  Lines 114--119: the loop over the existing letters for the group \<open>g\<close>.
\<close>

fun join_letters ::
  "('g \<Rightarrow> 'g \<Rightarrow> error + bool) \<Rightarrow> 'g list \<Rightarrow> 'g \<Rightarrow> nat list \<Rightarrow> ('g \<Rightarrow> pystr) \<times> bool \<Rightarrow>
   error + (('g \<Rightarrow> pystr) \<times> bool)" where
  "join_letters ns groups g [] (letters, placed) = Inr (letters, placed)"
| "join_letters ns groups g (L # rest) (letters, placed) =
     (let members = filter (\<lambda>h. L \<in> set (letters h)) groups
      in case py_all (ns g) members of
           Inl e \<Rightarrow> Inl e
         | Inr ok \<Rightarrow>
             if ok then join_letters ns groups g rest (letters(g := letters g @ [L]), True)
             else join_letters ns groups g rest (letters, placed))"

text \<open>Lines 120--124: a new letter \<^verbatim>\<open>chr(ord("a") + len(letter_list))\<close>.\<close>

definition new_letter ::
  "'g \<Rightarrow> ('g \<Rightarrow> pystr) \<times> nat list \<Rightarrow> error + (('g \<Rightarrow> pystr) \<times> nat list)" where
  "new_letter g st =
     (case st of (letters, letter_list) \<Rightarrow>
        (case py_chr (97 + length letter_list) of
           Inl e \<Rightarrow> Inl e
         | Inr c \<Rightarrow> Inr (letters(g := letters g @ [c]), letter_list @ [c])))"

text \<open>Lines 113--124 for one group.\<close>

definition place_group ::
  "('g \<Rightarrow> 'g \<Rightarrow> error + bool) \<Rightarrow> 'g list \<Rightarrow> 'g \<Rightarrow> ('g \<Rightarrow> pystr) \<times> nat list \<Rightarrow>
   error + (('g \<Rightarrow> pystr) \<times> nat list)" where
  "place_group ns groups g st =
     (case st of (letters, letter_list) \<Rightarrow>
        (case join_letters ns groups g letter_list (letters, False) of
           Inl e \<Rightarrow> Inl e
         | Inr (letters', placed) \<Rightarrow>
             if placed then Inr (letters', letter_list) else new_letter g (letters', letter_list)))"

text \<open>
  Lines 128--131, the clean-up pass over \<^verbatim>\<open>list(letters[g])\<close>. Both branches of
  its \<^verbatim>\<open>if\<close> continue with the next letter and nothing is assigned, so all it can
  do is raise from a call of \<^verbatim>\<open>nonsig\<close>.
\<close>

fun cleanup_pass ::
  "('g \<Rightarrow> 'g \<Rightarrow> error + bool) \<Rightarrow> 'g list \<Rightarrow> 'g \<Rightarrow> nat list \<Rightarrow> ('g \<Rightarrow> pystr) \<Rightarrow> error + unit" where
  "cleanup_pass ns groups g [] letters = Inr ()"
| "cleanup_pass ns groups g (L # rest) letters =
     (let members = filter (\<lambda>h. h \<noteq> g \<and> L \<in> set (letters h)) groups
      in if members = [] then cleanup_pass ns groups g rest letters
         else (case py_all (ns g) members of
                 Inl e \<Rightarrow> Inl e
               | Inr _ \<Rightarrow> cleanup_pass ns groups g rest letters))"

text \<open>The loop of line 112 over the groups that remain.\<close>

fun cld_loop ::
  "('g \<Rightarrow> 'g \<Rightarrow> error + bool) \<Rightarrow> 'g list \<Rightarrow> 'g list \<Rightarrow> ('g \<Rightarrow> pystr) \<times> nat list \<Rightarrow>
   error + ('g \<Rightarrow> pystr)" where
  "cld_loop ns groups [] (letters, letter_list) = Inr letters"
| "cld_loop ns groups (g # rest) (letters, letter_list) =
     (case place_group ns groups g (letters, letter_list) of
        Inl e \<Rightarrow> Inl e
      | Inr (letters', letter_list') \<Rightarrow>
          (case cleanup_pass ns groups g (letters' g) letters' of
             Inl e \<Rightarrow> Inl e
           | Inr _ \<Rightarrow> cld_loop ns groups rest (letters', letter_list')))"

text \<open>
  Line 103: \<^verbatim>\<open>sorted(groups, key=lambda g: group_means[g], reverse=True)\<close>. With
  \<^verbatim>\<open>reverse=True\<close> Python keeps groups of equal mean in their original order.
\<close>

definition sorted_desc :: "('g \<times> real) list \<Rightarrow> 'g list" where
  "sorted_desc group_means =
     rev (sort_key (\<lambda>g. the (map_of group_means g)) (rev (map fst group_means)))"

text \<open>
  The result is the dictionary \<^verbatim>\<open>letters\<close>, whose keys were inserted in the sorted
  order (line 105).
\<close>

definition cld_letters ::
  "('g \<Rightarrow> real option) \<Rightarrow> ('g \<times> real) list \<Rightarrow> ('g \<times> 'g \<rightharpoonup> real) \<Rightarrow> real \<Rightarrow>
   error + ('g \<times> pystr) list" where
  "cld_letters to_float group_means pvals alpha =
     (let groups = sorted_desc group_means
      in case cld_loop (nonsig to_float pvals alpha) groups groups (\<lambda>g. [], []) of
           Inl e \<Rightarrow> Inl e
         | Inr letters \<Rightarrow> Inr (map (\<lambda>g. (g, letters g)) groups))"

text \<open>The plain greedy assignment: \<open>cld_letters\<close> with lines 126--131 removed.\<close>

fun greedy_loop ::
  "('g \<Rightarrow> 'g \<Rightarrow> error + bool) \<Rightarrow> 'g list \<Rightarrow> 'g list \<Rightarrow> ('g \<Rightarrow> pystr) \<times> nat list \<Rightarrow>
   error + ('g \<Rightarrow> pystr)" where
  "greedy_loop ns groups [] (letters, letter_list) = Inr letters"
| "greedy_loop ns groups (g # rest) (letters, letter_list) =
     (case place_group ns groups g (letters, letter_list) of
        Inl e \<Rightarrow> Inl e
      | Inr st \<Rightarrow> greedy_loop ns groups rest st)"

definition cld_letters_greedy ::
  "('g \<Rightarrow> real option) \<Rightarrow> ('g \<times> real) list \<Rightarrow> ('g \<times> 'g \<rightharpoonup> real) \<Rightarrow> real \<Rightarrow>
   error + ('g \<times> pystr) list" where
  "cld_letters_greedy to_float group_means pvals alpha =
     (let groups = sorted_desc group_means
      in case greedy_loop (nonsig to_float pvals alpha) groups groups (\<lambda>g. [], []) of
           Inl e \<Rightarrow> Inl e
         | Inr letters \<Rightarrow> Inr (map (\<lambda>g. (g, letters g)) groups))"

text \<open>
  The invariant of the main loop: letters are held by groups of the input only, every
  letter held is in \<^verbatim>\<open>letter_list\<close>, the letters of \<^verbatim>\<open>letter_list\<close> are below the
  next new one, and two groups that share a letter were found non-significant by
  \<^verbatim>\<open>nonsig\<close>.
\<close>

definition cld_inv ::
  "('g \<Rightarrow> 'g \<Rightarrow> error + bool) \<Rightarrow> 'g list \<Rightarrow> ('g \<Rightarrow> pystr) \<times> nat list \<Rightarrow> bool" where
  "cld_inv ns groups st \<longleftrightarrow>
     (case st of (letters, letter_list) \<Rightarrow>
        (\<forall>h. h \<notin> set groups \<longrightarrow> letters h = []) \<and>
        (\<forall>h. set (letters h) \<subseteq> set letter_list) \<and>
        (\<forall>c\<in>set letter_list. c < 97 + length letter_list) \<and>
        (\<forall>g h. g \<noteq> h \<longrightarrow> set (letters g) \<inter> set (letters h) \<noteq> {} \<longrightarrow>
           ns g h = Inr True \<or> ns h g = Inr True))"

section \<open>Example inputs\<close>

text \<open>
  Three groups with means \<open>30 > 20 > 10\<close> and adjusted p-values \<open>0.9\<close>, \<open>0.9\<close> and
  \<open>0.01\<close>: the first and the third differ significantly at \<open>\<alpha> = 0.05\<close>, the second
  differs from neither.
\<close>

definition abc_means :: "(group_id \<times> real) list" where
  "abc_means = [(Numeric 1, 30), (Numeric 2, 20), (Numeric 3, 10)]"

definition abc_pvals :: "group_id \<times> group_id \<rightharpoonup> real" where
  "abc_pvals =
     [(Numeric 1, Numeric 2) \<mapsto> 9 / 10,
      (Numeric 2, Numeric 3) \<mapsto> 9 / 10,
      (Numeric 1, Numeric 3) \<mapsto> 1 / 100]"







section \<open>Properties of \<^verbatim>\<open>holm_adjust\<close>\<close>

lemma length_accumulate_from [simp]: "length (accumulate_from a xs) = length xs"
  by (induction xs arbitrary: a) auto

lemma length_maximum_accumulate [simp]: "length (maximum_accumulate xs) = length xs"
  by (cases xs) auto

lemma accumulate_from_nth:
  "i < length xs \<Longrightarrow> accumulate_from a xs ! i = Max (insert a (set (take (Suc i) xs)))"
proof (induction xs arbitrary: a i)
  case Nil
  then show ?case by simp
next
  case (Cons x xs)
  show ?case
  proof (cases i)
    case 0
    then show ?thesis by (simp add: max.commute)
  next
    case (Suc j)
    with Cons.prems have j: "j < length xs" by simp
    define S where "S = set (take (Suc j) xs)"
    have S: "finite S" "S \<noteq> {}" using j by (auto simp: S_def)
    have "accumulate_from a (x # xs) ! i = Max (insert (max a x) S)"
      using Cons.IH [OF j] Suc by (simp add: S_def)
    also have "\<dots> = Max (insert a (insert x S))"
      using S by (simp add: max.assoc)
    finally show ?thesis using Suc by (simp add: S_def)
  qed
qed

lemma maximum_accumulate_nth:
  "i < length xs \<Longrightarrow> maximum_accumulate xs ! i = Max (set (take (Suc i) xs))"
proof (cases xs)
  case Nil
  assume "i < length xs"
  with Nil show ?thesis by simp
next
  case (Cons x ys)
  assume i: "i < length xs"
  show ?thesis
  proof (cases i)
    case 0
    with Cons show ?thesis by simp
  next
    case (Suc j)
    with i Cons have "j < length ys" by simp
    then show ?thesis using Cons Suc by (simp add: accumulate_from_nth)
  qed
qed

lemma length_scatter [simp]: "length (scatter order vals out) = length out"
  by (induction order vals out rule: scatter.induct) auto

lemma scatter_untouched:
  "k \<notin> set order \<Longrightarrow> scatter order vals out ! k = out ! k"
  by (induction order vals out rule: scatter.induct) auto

lemma scatter_nth:
  "distinct order \<Longrightarrow> length vals = length order \<Longrightarrow> i < length order \<Longrightarrow>
   order ! i < length out \<Longrightarrow> scatter order vals out ! (order ! i) = vals ! i"
proof (induction order vals out arbitrary: i rule: scatter.induct)
  case (1 k ks v vs out)
  show ?case
  proof (cases i)
    case 0
    with "1.prems" show ?thesis by (simp add: scatter_untouched)
  next
    case (Suc j)
    with "1.prems" "1.IH" [of j] show ?thesis by simp
  qed
qed auto

lemma mset_argsort [simp]: "mset (argsort pvals) = mset [0..<length pvals]"
  by (simp add: argsort_def)

lemma set_argsort [simp]: "set (argsort pvals) = {0..<length pvals}"
  by (simp add: argsort_def)

lemma length_argsort [simp]: "length (argsort pvals) = length pvals"
  by (simp add: argsort_def)

lemma distinct_argsort [simp]: "distinct (argsort pvals)"
  by (simp add: argsort_def)

lemma position_in_nth:
  "k \<in> set order \<Longrightarrow> position_in order k < length order \<and> order ! position_in order k = k"
  unfolding position_in_def by (induction order) auto

lemma position_in_unique:
  "distinct order \<Longrightarrow> i < length order \<Longrightarrow> position_in order (order ! i) = i"
  using position_in_nth [of "order ! i" order] by (auto simp: nth_eq_iff_index_eq)

lemma holm_with_nth:
  assumes perm: "mset order = mset [0..<length pvals]" and i: "i < length pvals"
  shows "holm_with order pvals ! (order ! i)
     = clip 0 1 (Max ((\<lambda>j. real (length pvals - j) * pvals ! (order ! j)) ` {0..i}))"
proof -
  define m where "m = length pvals"
  define cand where "cand = map (\<lambda>(i, p). real (m - i) * p) (enumerate 0 (map (\<lambda>k. pvals ! k) order))"
  have ord: "distinct order" "length order = m" "set order = {0..<m}"
    using perm mset_eq_imp_distinct_iff [OF perm] mset_eq_length [OF perm] mset_eq_setD [OF perm]
    by (simp_all add: m_def)
  have im: "i < m" using i by (simp add: m_def)
  have len: "length cand = m" by (simp add: cand_def ord)
  have cand_nth: "cand ! j = real (m - j) * pvals ! (order ! j)" if "j < m" for j
    using that ord by (simp add: cand_def nth_enumerate_eq)
  have "set (take (Suc i) cand) = (\<lambda>j. cand ! j) ` {0..i}"
    using im len nth_image [of "Suc i" cand] by (simp add: atLeastLessThanSuc_atLeastAtMost)
  also have "\<dots> = (\<lambda>j. real (m - j) * pvals ! (order ! j)) ` {0..i}"
    using im by (intro image_cong) (auto simp: cand_nth)
  finally have run: "maximum_accumulate cand ! i = Max ((\<lambda>j. real (m - j) * pvals ! (order ! j)) ` {0..i})"
    using im len by (simp add: maximum_accumulate_nth)
  have "holm_with order pvals = scatter order (map (clip 0 1) (maximum_accumulate cand)) (replicate m 0)"
    by (simp add: holm_with_def Let_def cand_def m_def)
  also have "\<dots> ! (order ! i) = map (clip 0 1) (maximum_accumulate cand) ! i"
  proof (rule scatter_nth)
    show "order ! i < length (replicate m (0::real))"
      using ord im nth_mem [of i order] by auto
  qed (use ord im len in auto)
  finally show ?thesis using im len run by (simp add: m_def)
qed

text \<open>
  The result does not depend on how the sort orders equal p-values: tied p-values
  receive the same adjusted value, so every order that sorts the p-values gives the
  result of \<open>holm_adjust\<close>.
\<close>

lemma ranked_is_sort:
  assumes "mset order = mset [0..<length pvals]" and "sorted (map (\<lambda>k. pvals ! k) order)"
  shows "map (\<lambda>k. pvals ! k) order = sort pvals"
proof -
  have "mset (map (\<lambda>k. pvals ! k) order) = image_mset (\<lambda>k. pvals ! k) (mset [0..<length pvals])"
    using assms(1) by (metis mset_map)
  also have "\<dots> = mset (map (\<lambda>k. pvals ! k) [0..<length pvals])" by simp
  also have "\<dots> = mset pvals" by (simp only: map_nth)
  finally have "mset (map (\<lambda>k. pvals ! k) order) = mset pvals" .
  then have "sort pvals = map (\<lambda>k. pvals ! k) order"
    using assms(2) by (rule properties_for_sort)
  then show ?thesis by (rule sym)
qed

lemma running_max_tie:
  fixes q :: "real list"
  assumes "sorted q" and "i \<le> j" and "j < length q" and "q ! i = q ! j"
  shows "clip 0 1 (Max ((\<lambda>t. real (length q - t) * q ! t) ` {0..i}))
       = clip 0 1 (Max ((\<lambda>t. real (length q - t) * q ! t) ` {0..j}))"
proof -
  let ?c = "\<lambda>t. real (length q - t) * q ! t"
  have fin: "finite (?c ` {0..i})" "finite (?c ` {0..j})" "?c ` {0..i} \<noteq> {}" "?c ` {0..j} \<noteq> {}"
    by auto
  show ?thesis
  proof (cases "0 \<le> q ! j")
    case True
    have le: "Max (?c ` {0..i}) \<le> Max (?c ` {0..j})"
      using assms(2) by (intro Max_mono) auto
    have "?c t \<le> Max (?c ` {0..i})" if "t \<le> j" for t
    proof (cases "t \<le> i")
      case True
      then show ?thesis by (intro Max_ge) auto
    next
      case False
      then have it: "i < t" by simp
      have "q ! i \<le> q ! t" using assms(1,3) it that by (intro sorted_nth_mono) auto
      moreover have "q ! t \<le> q ! j" using assms(1,3) that by (intro sorted_nth_mono) auto
      ultimately have qt: "q ! t = q ! i" using assms(4) by simp
      have "real (length q - t) \<le> real (length q - i)" using it by simp
      then have "?c t \<le> ?c i"
        using True assms(4) qt by (simp add: mult_right_mono)
      also have "\<dots> \<le> Max (?c ` {0..i})" by (intro Max_ge) auto
      finally show ?thesis .
    qed
    then have "Max (?c ` {0..j}) \<le> Max (?c ` {0..i})"
      using fin by (subst Max_le_iff) auto
    with le have "Max (?c ` {0..i}) = Max (?c ` {0..j})" by (rule antisym)
    then show ?thesis by (simp only:)
  next
    case False
    then have neg: "q ! j < 0" by simp
    have nonpos: "?c t \<le> 0" if "t \<le> j" for t
    proof -
      have "q ! t \<le> q ! j" using assms(1,3) that by (intro sorted_nth_mono) auto
      with neg have "q ! t \<le> 0" by simp
      then show ?thesis by (simp add: mult_nonneg_nonpos)
    qed
    have "Max (?c ` {0..j}) \<le> 0" using fin nonpos by (subst Max_le_iff) auto
    moreover have "Max (?c ` {0..i}) \<le> 0" using fin nonpos assms(2) by (subst Max_le_iff) auto
    ultimately show ?thesis by (simp add: clip_def)
  qed
qed

lemma sorted_argsort: "sorted (map (\<lambda>k. pvals ! k) (argsort pvals))"
  by (simp add: argsort_def)

lemma holm_with_any_order:
  assumes perm: "mset order = mset [0..<length pvals]"
    and sorted: "sorted (map (\<lambda>k. pvals ! k) order)"
  shows "holm_with order pvals = holm_adjust pvals"
proof (rule nth_equalityI)
  show "length (holm_with order pvals) = length (holm_adjust pvals)"
    by (simp add: holm_adjust_def holm_with_def Let_def)
next
  fix k assume "k < length (holm_with order pvals)"
  then have k: "k < length pvals" by (simp add: holm_with_def Let_def)
  define m where "m = length pvals"
  define q where "q = sort pvals"
  define o2 where "o2 = argsort pvals"
  have perm2: "mset o2 = mset [0..<length pvals]" by (simp add: o2_def)
  have q1: "map (\<lambda>k. pvals ! k) order = q"
    unfolding q_def using perm sorted by (rule ranked_is_sort)
  have q2: "map (\<lambda>k. pvals ! k) o2 = q"
    unfolding q_def o2_def using mset_argsort sorted_argsort by (rule ranked_is_sort)
  have lq: "length q = m" "sorted q" by (simp_all add: q_def m_def)
  have len1: "length order = m" using mset_eq_length [OF perm] by (simp add: m_def)
  have len2: "length o2 = m" by (simp add: o2_def m_def)
  have k1: "k \<in> set order" using mset_eq_setD [OF perm] k by simp
  have k2: "k \<in> set o2" using k by (simp add: o2_def)
  define i where "i = position_in order k"
  define j where "j = position_in o2 k"
  have i: "i < m" "order ! i = k" using position_in_nth [OF k1] len1 by (simp_all add: i_def)
  have j: "j < m" "o2 ! j = k" using position_in_nth [OF k2] len2 by (simp_all add: j_def)
  have nth1: "pvals ! (order ! t) = q ! t" if "t < m" for t
    using that len1 q1 by (metis nth_map)
  have nth2: "pvals ! (o2 ! t) = q ! t" if "t < m" for t
    using that len2 q2 by (metis nth_map)
  have tie: "q ! i = q ! j" using nth1 [OF i(1)] nth2 [OF j(1)] i(2) j(2) by simp
  have r1: "holm_with order pvals ! k
      = clip 0 1 (Max ((\<lambda>t. real (length q - t) * q ! t) ` {0..i}))"
  proof -
    have "(\<lambda>t. real (length pvals - t) * pvals ! (order ! t)) ` {0..i}
        = (\<lambda>t. real (length q - t) * q ! t) ` {0..i}"
      using i(1) lq(1) by (intro image_cong) (auto simp: nth1 m_def)
    then show ?thesis
      using holm_with_nth [OF perm, of i] i by (simp add: m_def)
  qed
  have r2: "holm_with o2 pvals ! k
      = clip 0 1 (Max ((\<lambda>t. real (length q - t) * q ! t) ` {0..j}))"
  proof -
    have "(\<lambda>t. real (length pvals - t) * pvals ! (o2 ! t)) ` {0..j}
        = (\<lambda>t. real (length q - t) * q ! t) ` {0..j}"
      using j(1) lq(1) by (intro image_cong) (auto simp: nth2 m_def)
    then show ?thesis
      using holm_with_nth [OF perm2, of j] j by (simp add: m_def)
  qed
  have "clip 0 1 (Max ((\<lambda>t. real (length q - t) * q ! t) ` {0..i}))
      = clip 0 1 (Max ((\<lambda>t. real (length q - t) * q ! t) ` {0..j}))"
  proof (cases "i \<le> j")
    case True
    then show ?thesis using lq j(1) tie by (intro running_max_tie) auto
  next
    case False
    then have "j \<le> i" by simp
    then show ?thesis using lq i(1) tie by (intro running_max_tie [symmetric]) auto
  qed
  with r1 r2 show "holm_with order pvals ! k = holm_adjust pvals ! k"
    by (simp add: holm_adjust_def o2_def)
qed

lemma holm_adjust_example:
  "holm_adjust [1 / 100, 1 / 100, 1 / 100] = [3 / 100, 3 / 100, 3 / 100]"
  by (simp add: holm_adjust_def holm_with_def argsort_def clip_def enumerate_eq_zip upt_rec)

lemma length_holm_adjust [simp]: "length (holm_adjust pvals) = length pvals"
  by (simp add: holm_adjust_def holm_with_def Let_def)

lemma ascending_order_perm:
  "ascending_order order pvals \<Longrightarrow> mset order = mset [0..<length pvals]"
  unfolding ascending_order_def by (metis mset_sort)

lemma ascending_order_argsort: "ascending_order (argsort pvals) pvals"
proof -
  have "sort (argsort pvals) = sort [0..<length pvals]"
    by (rule properties_for_sort) simp_all
  then show ?thesis
    by (simp add: ascending_order_def sorted_argsort sort_upt)
qed

lemma holm_adjust_meets_spec:
  assumes "ascending_order order pvals"
  shows "holm_spec order pvals (holm_adjust pvals)"
proof -
  have perm: "mset order = mset [0..<length pvals]"
    using assms by (rule ascending_order_perm)
  have sorted: "sorted (map (\<lambda>k. pvals ! k) order)"
    using assms by (simp add: ascending_order_def)
  have eq: "holm_with order pvals = holm_adjust pvals"
    using perm sorted by (rule holm_with_any_order)
  have "holm_adjust pvals ! (order ! i)
      = min 1 (max 0 (Max ((\<lambda>j. real (length pvals - j) * pvals ! (order ! j)) ` {0..i})))"
    if "i < length pvals" for i
    using holm_with_nth [OF perm that] by (simp add: eq clip_def)
  then show ?thesis
    by (simp add: holm_spec_def Let_def list_all_iff)
qed

lemma holm_spec_unique:
  assumes "ascending_order order pvals" and "holm_spec order pvals out"
  shows "out = holm_adjust pvals"
proof (rule nth_equalityI)
  show "length out = length (holm_adjust pvals)"
    using assms(2) by (simp add: holm_spec_def Let_def)
next
  fix k assume "k < length out"
  then have k: "k < length pvals" using assms(2) by (simp add: holm_spec_def Let_def)
  have perm: "mset order = mset [0..<length pvals]"
    using assms(1) by (rule ascending_order_perm)
  have "k \<in> set order" using mset_eq_setD [OF perm] k by simp
  then obtain i where i: "i < length order" "order ! i = k" by (auto simp: in_set_conv_nth)
  have "length order = length pvals" using mset_eq_length [OF perm] by simp
  with i have im: "i < length pvals" by simp
  have "out ! (order ! i)
      = min 1 (max 0 (Max ((\<lambda>j. real (length pvals - j) * pvals ! (order ! j)) ` {0..i})))"
    using assms(2) im by (simp add: holm_spec_def Let_def list_all_iff)
  moreover have "holm_adjust pvals ! (order ! i)
      = min 1 (max 0 (Max ((\<lambda>j. real (length pvals - j) * pvals ! (order ! j)) ` {0..i})))"
    using holm_adjust_meets_spec [OF assms(1)] im by (simp add: holm_spec_def Let_def list_all_iff)
  ultimately show "out ! k = holm_adjust pvals ! k" using i(2) by simp
qed

text \<open>
  Claim C2. The index order that \<open>holm_adjust\<close> computes in line 15 lists every index
  once, by ascending p-value. For every order that does so (ties may be put in any
  order), \<open>holm_adjust\<close> returns the sequence the specification
  describes: the candidate \<open>(m - i) * p\<close> for the \<open>i\<close>-th smallest p-value, the running
  maximum over the sorted order, every value limited to \<open>[0, 1]\<close> and put back at the
  original index; and that sequence is the only one. In particular
  \<open>holm_adjust [0.01, 0.01, 0.01] = [0.03, 0.03, 0.03]\<close>.
\<close>

theorem holm_adjust_refines_spec:
  "ascending_order (argsort pvals) pvals \<and>
   (ascending_order order pvals \<longrightarrow> holm_spec order pvals (holm_adjust pvals)) \<and>
   (ascending_order order pvals \<and> holm_spec order pvals out \<longrightarrow> out = holm_adjust pvals) \<and>
   holm_adjust [1 / 100, 1 / 100, 1 / 100] = [3 / 100, 3 / 100, 3 / 100]"
  using ascending_order_argsort holm_adjust_meets_spec holm_spec_unique holm_adjust_example
  by blast

text \<open>
  The theorem at the unsorted p-values \<open>[0.9, 0.01, 0.6]\<close>, where the order is
  \<open>[1, 2, 0]\<close>, the candidates are \<open>0.03\<close>, \<open>1.2\<close>, \<open>0.9\<close>, the running maximum
  reaches \<open>1.2\<close> and is limited to \<open>1\<close>.
\<close>

theorem holm_adjust_refines_spec_witness:
  "ascending_order [1, 2, 0] [9 / 10, 1 / 100, 6 / 10] \<and>
   holm_spec [1, 2, 0] [9 / 10, 1 / 100, 6 / 10] [1, 3 / 100, 1] \<and>
   holm_adjust [9 / 10, 1 / 100, 6 / 10] = [1, 3 / 100, 1]"
proof -
  have a: "ascending_order [1, 2, 0] [9 / 10, 1 / 100, 6 / 10]"
    by (simp add: ascending_order_def upt_rec)
  have img: "{0..Suc 0} = {0, Suc 0}" "{0..Suc (Suc 0)} = {0, Suc 0, Suc (Suc 0)}" by auto
  have s: "holm_spec [1, 2, 0] [9 / 10, 1 / 100, 6 / 10] [1, 3 / 100, 1]"
    by (simp add: holm_spec_def Let_def upt_rec img)
  from a s holm_adjust_refines_spec [of "[9 / 10, 1 / 100, 6 / 10]" "[1, 2, 0]" "[1, 3 / 100, 1]"]
  have "[1, 3 / 100, 1] = holm_adjust [9 / 10, 1 / 100, 6 / 10]" by blast
  with a s show ?thesis by simp
qed

section \<open>Properties of \<^verbatim>\<open>cld_letters\<close>\<close>

subsection \<open>The loop invariant\<close>

lemma py_all_True_iff: "py_all f xs = Inr True \<longleftrightarrow> (\<forall>x\<in>set xs. f x = Inr True)"
  by (induction xs) (auto split: sum.splits)

lemma py_all_total:
  "(\<forall>x\<in>set xs. \<exists>b. f x = Inr b) \<Longrightarrow> \<exists>b. py_all f xs = Inr b"
  by (induction xs) (auto split: sum.splits)

lemma join_letters_result:
  "join_letters ns groups g Ls (letters, placed) = Inr (letters', placed') \<Longrightarrow>
   (\<forall>h. h \<noteq> g \<longrightarrow> letters' h = letters h) \<and>
   (\<exists>js. letters' g = letters g @ js \<and> set js \<subseteq> set Ls \<and> (placed' \<longleftrightarrow> placed \<or> js \<noteq> []) \<and>
      (\<forall>L\<in>set js. \<forall>h\<in>set groups. h \<noteq> g \<longrightarrow> L \<in> set (letters h) \<longrightarrow> ns g h = Inr True))"
proof (induction Ls arbitrary: letters placed)
  case Nil
  then show ?case by simp
next
  case (Cons L Ls)
  let ?members = "filter (\<lambda>h. L \<in> set (letters h)) groups"
  from Cons.prems obtain ok where ok: "py_all (ns g) ?members = Inr ok"
    by (auto simp: Let_def split: sum.splits)
  show ?case
  proof (cases ok)
    case True
    with ok Cons.prems
    have rec: "join_letters ns groups g Ls (letters(g := letters g @ [L]), True) = Inr (letters', placed')"
      by (simp add: Let_def)
    from Cons.IH [OF rec] obtain js where
      other: "\<forall>h. h \<noteq> g \<longrightarrow> letters' h = letters h" and
      js: "letters' g = (letters g @ [L]) @ js" "set js \<subseteq> set Ls" "placed'" and
      ns: "\<forall>M\<in>set js. \<forall>h\<in>set groups. h \<noteq> g \<longrightarrow> M \<in> set (letters h) \<longrightarrow> ns g h = Inr True"
      by auto
    have nsL: "\<forall>h\<in>set groups. h \<noteq> g \<longrightarrow> L \<in> set (letters h) \<longrightarrow> ns g h = Inr True"
      using ok True by (auto simp: py_all_True_iff)
    show ?thesis
      using other js ns nsL by (intro conjI exI [of _ "L # js"]) auto
  next
    case False
    with ok Cons.prems
    have rec: "join_letters ns groups g Ls (letters, placed) = Inr (letters', placed')"
      by (simp add: Let_def)
    from Cons.IH [OF rec] show ?thesis by auto
  qed
qed

lemma join_letters_total:
  "(\<forall>h\<in>set groups. \<exists>b. ns g h = Inr b) \<Longrightarrow> \<exists>r. join_letters ns groups g Ls (letters, placed) = Inr r"
proof (induction Ls arbitrary: letters placed)
  case Nil
  then show ?case by simp
next
  case (Cons L Ls)
  have "\<exists>b. py_all (ns g) (filter (\<lambda>h. L \<in> set (letters h)) groups) = Inr b"
    using Cons.prems by (intro py_all_total) auto
  then show ?case using Cons.IH [OF Cons.prems] by (auto simp: Let_def)
qed

lemma place_group_result:
  assumes "place_group ns groups g (letters, ll) = Inr (letters', ll')"
  shows "(\<forall>h. h \<noteq> g \<longrightarrow> letters' h = letters h) \<and>
     ((\<exists>js. js \<noteq> [] \<and> letters' g = letters g @ js \<and> set js \<subseteq> set ll \<and> ll' = ll \<and>
         (\<forall>L\<in>set js. \<forall>h\<in>set groups. h \<noteq> g \<longrightarrow> L \<in> set (letters h) \<longrightarrow> ns g h = Inr True))
      \<or> (letters' g = letters g @ [97 + length ll] \<and> ll' = ll @ [97 + length ll]))"
proof -
  from assms obtain l1 placed where
    j: "join_letters ns groups g ll (letters, False) = Inr (l1, placed)"
    by (auto simp: place_group_def split: sum.splits)
  note r = join_letters_result [OF j]
  show ?thesis
  proof (cases placed)
    case True
    with assms j have "letters' = l1" "ll' = ll" by (auto simp: place_group_def)
    with r True show ?thesis by auto
  next
    case False
    with r have l1g: "l1 g = letters g" by auto
    from assms j False have "new_letter g (l1, ll) = Inr (letters', ll')"
      by (simp add: place_group_def)
    then have "letters' = l1(g := l1 g @ [97 + length ll])" "ll' = ll @ [97 + length ll]"
      by (auto simp: new_letter_def py_chr_def split: if_splits)
    with r l1g show ?thesis by auto
  qed
qed

lemma place_group_inv:
  assumes pg: "place_group ns groups g (letters, ll) = Inr (letters', ll')"
    and g: "g \<in> set groups"
    and inv: "cld_inv ns groups (letters, ll)"
  shows "cld_inv ns groups (letters', ll') \<and> letters' g \<noteq> []"
proof -
  note r = place_group_result [OF pg]
  from inv have
    i1: "\<And>h. h \<notin> set groups \<Longrightarrow> letters h = []" and
    i2: "\<And>h. set (letters h) \<subseteq> set ll" and
    i3: "\<And>c. c \<in> set ll \<Longrightarrow> c < 97 + length ll" and
    i4: "\<And>a b. a \<noteq> b \<Longrightarrow> set (letters a) \<inter> set (letters b) \<noteq> {} \<Longrightarrow>
           ns a b = Inr True \<or> ns b a = Inr True"
    by (auto simp: cld_inv_def)
  from r have other: "\<And>h. h \<noteq> g \<Longrightarrow> letters' h = letters h" by auto
  from r consider
    (joined) js where "js \<noteq> []" "letters' g = letters g @ js" "set js \<subseteq> set ll" "ll' = ll"
      "\<And>L h. L \<in> set js \<Longrightarrow> h \<in> set groups \<Longrightarrow> h \<noteq> g \<Longrightarrow> L \<in> set (letters h) \<Longrightarrow> ns g h = Inr True"
    | (fresh) "letters' g = letters g @ [97 + length ll]" "ll' = ll @ [97 + length ll]"
    by blast
  then show ?thesis
  proof cases
    case joined
    have n1: "\<forall>h. h \<notin> set groups \<longrightarrow> letters' h = []"
      using other g i1 by metis
    have n2: "\<forall>h. set (letters' h) \<subseteq> set ll'"
    proof
      fix h show "set (letters' h) \<subseteq> set ll'"
        using other [of h] joined i2 [of h] i2 [of g] by (cases "h = g") auto
    qed
    have n3: "\<forall>c\<in>set ll'. c < 97 + length ll'"
      using joined i3 by simp
    have key: "ns g h = Inr True \<or> ns h g = Inr True"
      if "h \<noteq> g" "set (letters' g) \<inter> set (letters h) \<noteq> {}" for h
    proof -
      from that obtain L where L: "L \<in> set (letters' g)" "L \<in> set (letters h)" by auto
      have hg: "h \<in> set groups"
      proof (rule ccontr)
        assume "h \<notin> set groups"
        then have "letters h = []" by (rule i1)
        with L show False by simp
      qed
      show ?thesis
      proof (cases "L \<in> set js")
        case True
        then show ?thesis using joined(5) hg that L by auto
      next
        case False
        with L joined have "L \<in> set (letters g)" by auto
        with L that i4 [of g h] show ?thesis by auto
      qed
    qed
    have n4: "\<forall>a b. a \<noteq> b \<longrightarrow> set (letters' a) \<inter> set (letters' b) \<noteq> {} \<longrightarrow>
           ns a b = Inr True \<or> ns b a = Inr True"
    proof (intro allI impI)
      fix a b assume ab: "a \<noteq> b" "set (letters' a) \<inter> set (letters' b) \<noteq> {}"
      show "ns a b = Inr True \<or> ns b a = Inr True"
      proof (cases "a = g")
        case True
        with ab other [of b] key [of b] show ?thesis by auto
      next
        case a: False
        show ?thesis
        proof (cases "b = g")
          case True
          with ab a other [of a] key [of a] show ?thesis by (auto simp: Int_commute)
        next
          case False
          with a ab other i4 [of a b] show ?thesis by auto
        qed
      qed
    qed
    from n1 n2 n3 n4 joined show ?thesis by (simp add: cld_inv_def)
  next
    case fresh
    let ?c = "97 + length ll"
    have c: "?c \<notin> set ll" using i3 by auto
    have n1: "\<forall>h. h \<notin> set groups \<longrightarrow> letters' h = []"
      using other g i1 by metis
    have n2: "\<forall>h. set (letters' h) \<subseteq> set ll'"
    proof
      fix h show "set (letters' h) \<subseteq> set ll'"
        using other [of h] fresh i2 [of h] i2 [of g] by (cases "h = g") auto
    qed
    have n3: "\<forall>c\<in>set ll'. c < 97 + length ll'"
      using fresh i3 by (fastforce simp: less_Suc_eq)
    have key: "ns g h = Inr True \<or> ns h g = Inr True"
      if "h \<noteq> g" "set (letters' g) \<inter> set (letters h) \<noteq> {}" for h
    proof -
      from that obtain L where L: "L \<in> set (letters' g)" "L \<in> set (letters h)" by auto
      with c i2 [of h] fresh have "L \<in> set (letters g)" by auto
      with L that i4 [of g h] show ?thesis by auto
    qed
    have n4: "\<forall>a b. a \<noteq> b \<longrightarrow> set (letters' a) \<inter> set (letters' b) \<noteq> {} \<longrightarrow>
           ns a b = Inr True \<or> ns b a = Inr True"
    proof (intro allI impI)
      fix a b assume ab: "a \<noteq> b" "set (letters' a) \<inter> set (letters' b) \<noteq> {}"
      show "ns a b = Inr True \<or> ns b a = Inr True"
      proof (cases "a = g")
        case True
        with ab other [of b] key [of b] show ?thesis by auto
      next
        case a: False
        show ?thesis
        proof (cases "b = g")
          case True
          with ab a other [of a] key [of a] show ?thesis by (auto simp: Int_commute)
        next
          case False
          with a ab other i4 [of a b] show ?thesis by auto
        qed
      qed
    qed
    from n1 n2 n3 n4 fresh show ?thesis by (simp add: cld_inv_def)
  qed
qed

lemma cld_inv_initial: "cld_inv ns groups (\<lambda>g. [], [])"
  by (simp add: cld_inv_def)

lemma cleanup_pass_ok:
  "(\<forall>L\<in>set Ls. \<forall>h\<in>set groups. h \<noteq> g \<longrightarrow> L \<in> set (letters h) \<longrightarrow> ns g h = Inr True) \<Longrightarrow>
   cleanup_pass ns groups g Ls letters = Inr ()"
proof (induction Ls)
  case Nil
  then show ?case by simp
next
  case (Cons L Ls)
  have "py_all (ns g) (filter (\<lambda>h. h \<noteq> g \<and> L \<in> set (letters h)) groups) = Inr True"
    using Cons.prems by (auto simp: py_all_True_iff)
  with Cons show ?case by (simp add: Let_def)
qed

lemma cleanup_pass_total:
  "(\<forall>h\<in>set groups. \<exists>b. ns g h = Inr b) \<Longrightarrow> cleanup_pass ns groups g Ls letters = Inr ()"
proof (induction Ls)
  case Nil
  then show ?case by simp
next
  case (Cons L Ls)
  have "\<exists>b. py_all (ns g) (filter (\<lambda>h. h \<noteq> g \<and> L \<in> set (letters h)) groups) = Inr b"
    using Cons.prems by (intro py_all_total) auto
  with Cons show ?case by (auto simp: Let_def)
qed

lemma cleanup_after_place:
  assumes pg: "place_group ns groups g (letters, ll) = Inr (letters', ll')"
    and inv: "cld_inv ns groups (letters, ll)"
    and empty: "letters g = []"
  shows "cleanup_pass ns groups g (letters' g) letters' = Inr ()"
proof (rule cleanup_pass_ok, intro ballI impI)
  fix L h assume L: "L \<in> set (letters' g)" and h: "h \<in> set groups" "h \<noteq> g" "L \<in> set (letters' h)"
  note r = place_group_result [OF pg]
  from r h have Lh: "L \<in> set (letters h)" by auto
  from inv have i2: "set (letters h) \<subseteq> set ll" and i3: "\<And>c. c \<in> set ll \<Longrightarrow> c < 97 + length ll"
    by (auto simp: cld_inv_def)
  have "97 + length ll \<notin> set ll" using i3 by auto
  with Lh i2 have "L \<noteq> 97 + length ll" by auto
  with r L empty obtain js where "L \<in> set js"
    "\<forall>L\<in>set js. \<forall>h\<in>set groups. h \<noteq> g \<longrightarrow> L \<in> set (letters h) \<longrightarrow> ns g h = Inr True"
    by auto
  with h Lh show "ns g h = Inr True" by auto
qed

lemma cld_loop_inv:
  "cld_loop ns groups gs (letters, ll) = Inr final \<Longrightarrow> set gs \<subseteq> set groups \<Longrightarrow>
   cld_inv ns groups (letters, ll) \<Longrightarrow>
   (\<exists>ll'. cld_inv ns groups (final, ll')) \<and>
   (\<forall>g\<in>set gs. final g \<noteq> []) \<and> (\<forall>h. letters h \<noteq> [] \<longrightarrow> final h \<noteq> [])"
proof (induction gs arbitrary: letters ll)
  case Nil
  then show ?case by auto
next
  case (Cons g gs)
  from Cons.prems(1) obtain l1 ll1 where
    pg: "place_group ns groups g (letters, ll) = Inr (l1, ll1)" and
    rec: "cld_loop ns groups gs (l1, ll1) = Inr final"
    by (auto split: sum.splits)
  from Cons.prems have g: "g \<in> set groups" and gs: "set gs \<subseteq> set groups" by auto
  from place_group_inv [OF pg g Cons.prems(3)]
  have inv1: "cld_inv ns groups (l1, ll1)" and l1g: "l1 g \<noteq> []" by auto
  from place_group_result [OF pg]
  have keep: "\<And>h. letters h \<noteq> [] \<Longrightarrow> l1 h \<noteq> []"
    by (metis append_is_Nil_conv)
  from Cons.IH [OF rec gs inv1] l1g keep show ?case by auto
qed

lemma cld_loop_eq_greedy_loop:
  "set gs \<subseteq> set groups \<Longrightarrow> distinct gs \<Longrightarrow> \<forall>g\<in>set gs. letters g = [] \<Longrightarrow>
   cld_inv ns groups (letters, ll) \<Longrightarrow>
   cld_loop ns groups gs (letters, ll) = greedy_loop ns groups gs (letters, ll)"
proof (induction gs arbitrary: letters ll)
  case Nil
  then show ?case by simp
next
  case (Cons g gs)
  show ?case
  proof (cases "place_group ns groups g (letters, ll)")
    case (Inl e)
    then show ?thesis by simp
  next
    case (Inr st)
    obtain l1 ll1 where st: "st = (l1, ll1)" by (cases st)
    with Inr have pg: "place_group ns groups g (letters, ll) = Inr (l1, ll1)" by simp
    from Cons.prems have g: "g \<in> set groups" "letters g = []" by auto
    have clean: "cleanup_pass ns groups g (l1 g) l1 = Inr ()"
      using cleanup_after_place [OF pg Cons.prems(4) g(2)] .
    have inv1: "cld_inv ns groups (l1, ll1)"
      using place_group_inv [OF pg g(1) Cons.prems(4)] by simp
    have rest: "\<forall>h\<in>set gs. l1 h = []"
      using place_group_result [OF pg] Cons.prems(2,3) by auto
    have "cld_loop ns groups gs (l1, ll1) = greedy_loop ns groups gs (l1, ll1)"
      using Cons.prems by (intro Cons.IH rest inv1) auto
    with pg clean show ?thesis by simp
  qed
qed

lemma set_sorted_desc [simp]: "set (sorted_desc gm) = fst ` set gm"
  by (simp add: sorted_desc_def)

lemma distinct_sorted_desc [simp]: "distinct (sorted_desc gm) = distinct (map fst gm)"
  by (simp add: sorted_desc_def)

lemma length_sorted_desc [simp]: "length (sorted_desc gm) = length gm"
  by (simp add: sorted_desc_def)




lemma nonsig_total:
  "to_float g \<noteq> None \<Longrightarrow> to_float h \<noteq> None \<Longrightarrow> \<exists>b. nonsig to_float pvals alpha g h = Inr b"
  by (auto simp: nonsig_def pair_pvalue_def sorted_pair_def split: option.splits)

lemma place_group_total:
  assumes "\<forall>h\<in>set groups. \<exists>b. ns g h = Inr b" "length ll < 1114015"
  shows "\<exists>letters' ll'. place_group ns groups g (letters, ll) = Inr (letters', ll') \<and> length ll' \<le> Suc (length ll)"
proof -
  have "\<exists>r. join_letters ns groups g ll (letters, False) = Inr r"
    using assms(1) by (rule join_letters_total)
  then obtain l1 placed where
    "join_letters ns groups g ll (letters, False) = Inr (l1, placed)" by fastforce
  with assms(2) show ?thesis
    by (cases placed) (auto simp: place_group_def new_letter_def py_chr_def)
qed

lemma cld_loop_total:
  "\<forall>g\<in>set groups. \<forall>h\<in>set groups. \<exists>b. ns g h = Inr b \<Longrightarrow> set gs \<subseteq> set groups \<Longrightarrow>
   length ll + length gs \<le> 1114015 \<Longrightarrow> \<exists>final. cld_loop ns groups gs (letters, ll) = Inr final"
proof (induction gs arbitrary: letters ll)
  case Nil
  then show ?case by simp
next
  case (Cons g gs)
  from Cons.prems have g: "\<forall>h\<in>set groups. \<exists>b. ns g h = Inr b" and ll: "length ll < 1114015" by auto
  have "\<exists>l1 ll1. place_group ns groups g (letters, ll) = Inr (l1, ll1) \<and> length ll1 \<le> Suc (length ll)"
    using g ll by (rule place_group_total)
  then obtain l1 ll1 where
    pg: "place_group ns groups g (letters, ll) = Inr (l1, ll1)" and len: "length ll1 \<le> Suc (length ll)"
    by blast
  have clean: "cleanup_pass ns groups g (l1 g) l1 = Inr ()"
    using g by (rule cleanup_pass_total)
  have "\<exists>final. cld_loop ns groups gs (l1, ll1) = Inr final"
    using Cons.prems len by (intro Cons.IH) auto
  with pg clean show ?case by simp
qed

lemmas cld_eval =
  cld_letters_def cld_letters_greedy_def sorted_desc_def place_group_def new_letter_def py_chr_def
  nonsig_def pair_pvalue_def sorted_pair_def Let_def str_def


subsection \<open>Shared letters\<close>




subsection \<open>The keys of the result\<close>

text \<open>
  Whenever \<open>cld_letters\<close> returns a mapping, its keys are the keys of \<open>group_means\<close>
  in the sorted order and every letter string is non-empty.
\<close>

lemma cld_letters_keys_nonempty:
  assumes "cld_letters to_float group_means pvals alpha = Inr res"
  shows "map fst res = sorted_desc group_means \<and> (\<forall>(g, s)\<in>set res. s \<noteq> [])"
proof -
  define groups where "groups = sorted_desc group_means"
  define ns where "ns = nonsig to_float pvals alpha"
  from assms obtain final where
    loop: "cld_loop ns groups groups (\<lambda>g. [], []) = Inr final" and
    res: "res = map (\<lambda>g. (g, final g)) groups"
    by (auto simp: cld_letters_def Let_def groups_def ns_def split: sum.splits)
  from cld_loop_inv [OF loop subset_refl cld_inv_initial]
  have "\<forall>g\<in>set groups. final g \<noteq> []" by blast
  then show ?thesis by (auto simp: res groups_def comp_def)
qed

text \<open>
  Claim C9, amended. When \<^verbatim>\<open>float()\<close> accepts every key of \<open>group_means\<close> and there
  are at most 1114015 keys, \<open>cld_letters\<close> returns a mapping whose keys are the keys of
  \<open>group_means\<close>, in the sorted order, each with a non-empty letter string. The bound
  is the number of letters \<^verbatim>\<open>chr\<close> can produce from \<^verbatim>\<open>"a"\<close> on.
\<close>

theorem cld_letters_covers_keys:
  assumes "\<forall>g\<in>fst ` set group_means. to_float g \<noteq> None"
    and "length group_means \<le> 1114015"
  shows "\<exists>res. cld_letters to_float group_means pvals alpha = Inr res \<and>
           map fst res = sorted_desc group_means \<and>
           (\<forall>g\<in>fst ` set group_means. \<exists>s. (g, s) \<in> set res \<and> s \<noteq> []) \<and>
           (\<forall>(g, s)\<in>set res. s \<noteq> [])"
proof -
  define groups where "groups = sorted_desc group_means"
  define ns where "ns = nonsig to_float pvals alpha"
  have tot: "\<forall>g\<in>set groups. \<forall>h\<in>set groups. \<exists>b. ns g h = Inr b"
    using assms(1) by (auto simp: groups_def ns_def intro!: nonsig_total)
  have "\<exists>final. cld_loop ns groups groups (\<lambda>g. [], []) = Inr final"
    using assms(2) by (intro cld_loop_total tot) (auto simp: groups_def)
  then obtain final where loop: "cld_loop ns groups groups (\<lambda>g. [], []) = Inr final" by blast
  from cld_loop_inv [OF loop subset_refl cld_inv_initial]
  have ne: "\<forall>g\<in>set groups. final g \<noteq> []" by blast
  have res: "cld_letters to_float group_means pvals alpha = Inr (map (\<lambda>g. (g, final g)) groups)"
    using loop by (simp add: cld_letters_def Let_def groups_def ns_def)
  have "map fst (map (\<lambda>g. (g, final g)) groups) = groups" by (simp add: comp_def)
  moreover have "\<forall>g\<in>fst ` set group_means. \<exists>s. (g, s) \<in> set (map (\<lambda>g. (g, final g)) groups) \<and> s \<noteq> []"
    using ne by (auto simp: groups_def)
  moreover have "\<forall>(g, s)\<in>set (map (\<lambda>g. (g, final g)) groups). s \<noteq> []"
    using ne by auto
  ultimately show ?thesis using res groups_def by blast
qed

text \<open>
  The theorem at the example input.
\<close>

theorem cld_letters_covers_keys_witness:
  "\<exists>res. cld_letters py_float abc_means abc_pvals (5 / 100) = Inr res \<and>
      map fst res = sorted_desc abc_means \<and>
      (\<exists>s. (Numeric 2, s) \<in> set res \<and> s \<noteq> [])"
proof -
  have "\<forall>g\<in>fst ` set abc_means. py_float g \<noteq> None" by (simp add: abc_means_def)
  moreover have "length abc_means \<le> 1114015" by (simp add: abc_means_def)
  ultimately obtain res where
    "cld_letters py_float abc_means abc_pvals (5 / 100) = Inr res"
    "map fst res = sorted_desc abc_means"
    "\<forall>g\<in>fst ` set abc_means. \<exists>s. (g, s) \<in> set res \<and> s \<noteq> []"
    using cld_letters_covers_keys [of abc_means py_float abc_pvals "5 / 100"] by blast
  moreover have "Numeric 2 \<in> fst ` set abc_means" by (simp add: abc_means_def)
  ultimately show ?thesis by blast
qed

text \<open>
  Claim C9 as stated fails: with the keys \<^verbatim>\<open>"A"\<close> and \<^verbatim>\<open>"B"\<close> no mapping is
  returned, since the first comparison of two groups calls \<^verbatim>\<open>float("B")\<close>.
\<close>

theorem cld_letters_label_counterexample:
  "cld_letters py_float [(Label ''A'', 2), (Label ''B'', 1)] Map.empty (5 / 100) = Inl ValueError_float"
  by (simp add: cld_eval)

subsection \<open>The clean-up pass\<close>

text \<open>
  Claim C10. The clean-up pass of lines 126--131 changes nothing: for every input
  dictionary, \<open>cld_letters\<close> and the greedy assignment without that pass have the same
  outcome, the same mapping or the same error.
\<close>

theorem cleanup_pass_is_noop:
  assumes "distinct (map fst group_means)"
  shows "cld_letters to_float group_means pvals alpha = cld_letters_greedy to_float group_means pvals alpha"
proof -
  define groups where "groups = sorted_desc group_means"
  have "cld_loop (nonsig to_float pvals alpha) groups groups (\<lambda>g. [], [])
      = greedy_loop (nonsig to_float pvals alpha) groups groups (\<lambda>g. [], [])"
    using assms by (intro cld_loop_eq_greedy_loop cld_inv_initial) (auto simp: groups_def)
  then show ?thesis
    by (simp add: cld_letters_def cld_letters_greedy_def groups_def)
qed

text \<open>
  The theorem at the example input.
\<close>

theorem cleanup_pass_is_noop_witness:
  "distinct (map fst abc_means) \<and>
   cld_letters py_float abc_means abc_pvals (5 / 100) = cld_letters_greedy py_float abc_means abc_pvals (5 / 100)"
  using cleanup_pass_is_noop [of abc_means py_float abc_pvals "5 / 100"]
  by (simp add: abc_means_def)

subsection \<open>Three groups\<close>






section \<open>Properties of \<^verbatim>\<open>dunn_posthoc\<close>\<close>

subsection \<open>The tested pairs\<close>

lemma index_pairs:
  "concat (map (\<lambda>i. concat (map (\<lambda>j. G (xs ! i) (xs ! j)) [Suc i..<length xs])) [0..<length xs])
   = concat (map (\<lambda>(a, b). G a b) (all_pairs xs))"
proof (induction xs)
  case Nil
  then show ?case by simp
next
  case (Cons x xs)
  let ?n = "length xs"
  have inner: "concat (map (\<lambda>j. G ((x # xs) ! i) ((x # xs) ! j)) [Suc i..<Suc ?n])
      = concat (map (\<lambda>j. G ((x # xs) ! i) (xs ! j)) [i..<?n])" for i
    unfolding map_Suc_upt [symmetric] by (simp add: comp_def)
  have first: "concat (map (\<lambda>j. G x (xs ! j)) [0..<?n]) = concat (map (G x) xs)"
  proof -
    have "map (\<lambda>j. G x (xs ! j)) [0..<?n] = map (G x) (map (nth xs) [0..<?n])" by simp
    then show ?thesis by (simp only: map_nth)
  qed
  have "concat (map (\<lambda>i. concat (map (\<lambda>j. G ((x # xs) ! i) ((x # xs) ! j)) [Suc i..<Suc ?n])) [0..<Suc ?n])
      = concat (map (\<lambda>i. concat (map (\<lambda>j. G ((x # xs) ! i) (xs ! j)) [i..<?n])) (0 # map Suc [0..<?n]))"
    unfolding inner by (simp only: map_Suc_upt upt_conv_Cons [of 0 "Suc ?n"] zero_less_Suc if_True)
  also have "\<dots> = concat (map (G x) xs)
      @ concat (map (\<lambda>i. concat (map (\<lambda>j. G (xs ! i) (xs ! j)) [Suc i..<?n])) [0..<?n])"
    by (simp add: first comp_def)
  also have "\<dots> = concat (map (\<lambda>(a, b). G a b) (all_pairs (x # xs)))"
    by (simp add: Cons.IH comp_def)
  finally show ?case by simp
qed

lemma concat_guard:
  "concat (map (\<lambda>(a, b). if P a b then [(a, b)] else []) ps) = filter (\<lambda>(a, b). P a b) ps"
  by (induction ps) auto

lemma filter_all_pairs:
  "filter (\<lambda>(a, b). Q a \<and> Q b) (all_pairs xs) = all_pairs (filter Q xs)"
  by (induction xs) (auto simp: filter_map comp_def)

lemma tested_pairs_eq:
  "tested_pairs group_keys labels = all_pairs (filter (\<lambda>g. group_size labels g \<noteq> 0) group_keys)"
proof -
  have "tested_pairs group_keys labels
      = concat (map (\<lambda>(a, b). if group_size labels a \<noteq> 0 \<and> group_size labels b \<noteq> 0 then [(a, b)] else [])
          (all_pairs group_keys))"
    unfolding tested_pairs_def
    using index_pairs [of "\<lambda>a b. if group_size labels a \<noteq> 0 \<and> group_size labels b \<noteq> 0 then [(a, b)] else []" group_keys]
    by simp
  then show ?thesis by (simp only: concat_guard filter_all_pairs)
qed

lemma group_size_absent:
  "g \<notin> fst ` set groups \<Longrightarrow> group_size (group_labels groups) g = 0"
  by (induction groups) (auto simp: group_size_def group_labels_def)

lemma group_size_present:
  "distinct (map fst groups) \<Longrightarrow> (g, arr) \<in> set groups \<Longrightarrow>
   group_size (group_labels groups) g = length arr"
proof (induction groups)
  case Nil
  then show ?case by simp
next
  case (Cons p groups)
  obtain h arr' where p: "p = (h, arr')" by (cases p)
  have split: "group_size (group_labels (p # groups)) g
      = (if h = g then length arr' else 0) + group_size (group_labels groups) g"
    by (simp add: group_size_def group_labels_def p)
  show ?case
  proof (cases "h = g")
    case True
    with Cons.prems p have "arr' = arr" "g \<notin> fst ` set groups" by (auto simp: image_iff)
    with split True show ?thesis by (simp add: group_size_absent)
  next
    case False
    with Cons p split show ?thesis by auto
  qed
qed

lemma filter_nonempty_keys:
  "distinct (map fst groups) \<Longrightarrow>
   filter (\<lambda>g. group_size (group_labels groups) g \<noteq> 0) (map fst groups) = nonempty_groups groups"
proof -
  assume d: "distinct (map fst groups)"
  have "filter (\<lambda>g. group_size (group_labels groups) g \<noteq> 0) (map fst groups)
      = map fst (filter (\<lambda>p. group_size (group_labels groups) (fst p) \<noteq> 0) groups)"
    by (simp add: filter_map comp_def)
  also have "\<dots> = map fst (filter (\<lambda>(g, arr). arr \<noteq> []) groups)"
    using group_size_present [OF d] by (intro arg_cong [of _ _ "map fst"] filter_cong) auto
  finally show ?thesis by (simp add: nonempty_groups_def)
qed

lemma length_all_pairs: "length (all_pairs xs) = length xs choose 2"
  by (induction xs) (simp_all add: numeral_2_eq_2)

lemma set_all_pairs:
  "set (all_pairs xs) = {(xs ! i, xs ! j) | i j. i < j \<and> j < length xs}"
proof (induction xs)
  case Nil
  then show ?case by simp
next
  case (Cons x xs)
  have "{((x # xs) ! i, (x # xs) ! j) | i j. i < j \<and> j < length (x # xs)}
      = Pair x ` set xs \<union> {(xs ! i, xs ! j) | i j. i < j \<and> j < length xs}" (is "?L = ?R")
  proof (intro equalityI subsetI)
    fix p assume "p \<in> ?L"
    then obtain i j where ij: "p = ((x # xs) ! i, (x # xs) ! j)" "i < j" "j < Suc (length xs)" by auto
    then obtain j' where j': "j = Suc j'" by (cases j) auto
    show "p \<in> ?R"
    proof (cases i)
      case 0
      with ij j' show ?thesis by auto
    next
      case (Suc i')
      with ij j' have "p = (xs ! i', xs ! j')" "i' < j'" "j' < length xs" by auto
      then show ?thesis by blast
    qed
  next
    fix p assume "p \<in> ?R"
    then consider (a) y where "y \<in> set xs" "p = (x, y)"
      | (b) i j where "p = (xs ! i, xs ! j)" "i < j" "j < length xs" by auto
    then show "p \<in> ?L"
    proof cases
      case a
      then obtain j where "j < length xs" "xs ! j = y" by (auto simp: in_set_conv_nth)
      with a have "p = ((x # xs) ! 0, (x # xs) ! Suc j)" "0 < Suc j" "Suc j < length (x # xs)" by auto
      then show ?thesis by blast
    next
      case b
      then have "p = ((x # xs) ! Suc i, (x # xs) ! Suc j)" "Suc i < Suc j" "Suc j < length (x # xs)" by auto
      then show ?thesis by blast
    qed
  qed
  with Cons show ?case by simp
qed

lemma all_pairs_members:
  "(a, b) \<in> set (all_pairs xs) \<Longrightarrow> a \<in> set xs \<and> b \<in> set xs"
  by (auto simp: set_all_pairs)

lemma all_pairs_distinct:
  assumes "distinct xs"
  shows "distinct (all_pairs xs)"
  using assms
proof (induction xs)
  case Nil
  then show ?case by simp
next
  case (Cons x xs)
  have "distinct (map (Pair x) xs)" using Cons.prems by (simp add: distinct_map inj_on_def)
  moreover have "set (map (Pair x) xs) \<inter> set (all_pairs xs) = {}"
    using Cons.prems all_pairs_members [of x _ xs] by auto
  ultimately show ?case using Cons by simp
qed

lemma all_pairs_irreflexive:
  "distinct xs \<Longrightarrow> (a, b) \<in> set (all_pairs xs) \<Longrightarrow> a \<noteq> b"
  by (auto simp: set_all_pairs nth_eq_iff_index_eq)

lemma all_pairs_asymmetric:
  "distinct xs \<Longrightarrow> (a, b) \<in> set (all_pairs xs) \<Longrightarrow> (b, a) \<notin> set (all_pairs xs)"
  by (auto simp: set_all_pairs nth_eq_iff_index_eq)

lemma all_pairs_total:
  "a \<in> set xs \<Longrightarrow> b \<in> set xs \<Longrightarrow> a \<noteq> b \<Longrightarrow>
   (a, b) \<in> set (all_pairs xs) \<or> (b, a) \<in> set (all_pairs xs)"
proof -
  assume "a \<in> set xs" "b \<in> set xs" "a \<noteq> b"
  then obtain i j where ij: "i < length xs" "xs ! i = a" "j < length xs" "xs ! j = b" "i \<noteq> j"
    by (metis in_set_conv_nth)
  then consider "i < j" | "j < i" by linarith
  then show ?thesis
    using ij by cases (auto simp: set_all_pairs)
qed


lemma update_absent: "k \<notin> fst ` set al \<Longrightarrow> AList.update k v al = al @ [(k, v)]"
  by (induction al) auto

lemma sorted_pair_Inr:
  "to_float a \<noteq> None \<Longrightarrow> to_float b \<noteq> None \<Longrightarrow> sorted_pair to_float a b = Inr (canonical to_float (a, b))"
  by (auto simp: canonical_def sorted_pair_def split: option.splits)

lemma canonical_cases: "canonical to_float (a, b) = (a, b) \<or> canonical to_float (a, b) = (b, a)"
  by (auto simp: canonical_def sorted_pair_def split: option.splits)

lemma canonical_sorted:
  "to_float a = Some x \<Longrightarrow> to_float b = Some y \<Longrightarrow> canonical to_float (a, b) = (c, d) \<Longrightarrow>
   \<exists>u v. to_float c = Some u \<and> to_float d = Some v \<and> u \<le> v"
  by (auto simp: canonical_def sorted_pair_def split: if_splits)

lemma build_out_appends:
  "\<forall>(a, b)\<in>set (map fst entries). to_float a \<noteq> None \<and> to_float b \<noteq> None \<Longrightarrow>
   distinct (map fst out @ map (\<lambda>e. canonical to_float (fst e)) entries) \<Longrightarrow>
   build_out to_float entries out = Inr (out @ map (\<lambda>e. (canonical to_float (fst e), snd e)) entries)"
proof (induction entries arbitrary: out)
  case Nil
  then show ?case by simp
next
  case (Cons e entries)
  obtain a b p where e: "e = ((a, b), p)" by (cases e) auto
  let ?k = "canonical to_float (a, b)"
  from Cons.prems(1) e have sp: "sorted_pair to_float a b = Inr ?k"
    by (intro sorted_pair_Inr) auto
  from Cons.prems(2) e have fresh: "?k \<notin> fst ` set out" by auto
  then have upd: "AList.update ?k p out = out @ [(?k, p)]" by (rule update_absent)
  have "build_out to_float entries (out @ [(?k, p)])
      = Inr ((out @ [(?k, p)]) @ map (\<lambda>e. (canonical to_float (fst e), snd e)) entries)"
    using Cons.prems e by (intro Cons.IH) auto
  then show ?case using sp upd e by simp
qed

lemma build_out_error:
  "build_out to_float entries out = Inl e \<Longrightarrow> e = ValueError_float"
proof (induction entries arbitrary: out)
  case Nil
  then show ?case by simp
next
  case (Cons en entries)
  obtain a b p where en: "en = ((a, b), p)" by (cases en) auto
  show ?case
  proof (cases "sorted_pair to_float a b")
    case (Inl e')
    with Cons.prems en show ?thesis
      by (auto simp: sorted_pair_def split: option.splits)
  next
    case (Inr key)
    with Cons en show ?thesis by auto
  qed
qed

lemma canonical_distinct:
  assumes "distinct xs"
  shows "distinct (map (canonical to_float) (all_pairs xs))"
proof -
  have "inj_on (canonical to_float) (set (all_pairs xs))"
  proof (rule inj_onI)
    fix p q assume p: "p \<in> set (all_pairs xs)" and q: "q \<in> set (all_pairs xs)"
      and eq: "canonical to_float p = canonical to_float q"
    obtain a b where pa: "p = (a, b)" by (cases p)
    obtain c d where qc: "q = (c, d)" by (cases q)
    define k where "k = canonical to_float (a, b)"
    have "k = (a, b) \<or> k = (b, a)"
      unfolding k_def by (rule canonical_cases)
    moreover have "k = (c, d) \<or> k = (d, c)"
      using eq pa qc canonical_cases [of to_float c d] by (simp add: k_def)
    ultimately consider "(a, b) = (c, d)" | "(a, b) = (d, c)" by auto
    then show "p = q"
    proof cases
      case 1
      with pa qc show ?thesis by simp
    next
      case 2
      then have "a = d" "b = c" by simp_all
      with p pa have "(d, c) \<in> set (all_pairs xs)" by simp
      moreover from q qc have "(c, d) \<in> set (all_pairs xs)" by simp
      then have "(d, c) \<notin> set (all_pairs xs)" by (rule all_pairs_asymmetric [OF assms])
      ultimately show ?thesis by contradiction
    qed
  qed
  with all_pairs_distinct [OF assms] show ?thesis by (simp add: distinct_map)
qed

lemma adjust_length: "adjust p_adjust raw_p = Inr adj_p \<Longrightarrow> length adj_p = length raw_p"
  by (auto simp: adjust_def split: if_splits)

lemma adjust_supported:
  "str_lower p_adjust = ''holm'' \<or> str_lower p_adjust = ''bonferroni'' \<Longrightarrow>
   \<exists>adj_p. adjust p_adjust raw_p = Inr adj_p"
  by (auto simp: adjust_def)

lemma adjust_unsupported:
  "str_lower p_adjust \<noteq> ''holm'' \<Longrightarrow> str_lower p_adjust \<noteq> ''bonferroni'' \<Longrightarrow>
   adjust p_adjust raw_p = Inl ValueError_p_adjust"
  by (simp add: adjust_def)

lemma distinct_nonempty_groups:
  "distinct (map fst groups) \<Longrightarrow> distinct (nonempty_groups groups)"
  unfolding nonempty_groups_def by (simp add: distinct_map_filter)

lemma dunn_posthoc_unfold:
  assumes "groups \<noteq> []" "distinct (map fst groups)"
  shows "\<exists>raw_p. length raw_p = length (all_pairs (nonempty_groups groups)) \<and>
     dunn_posthoc to_float groups p_adjust =
       (case adjust p_adjust raw_p of
          Inl e \<Rightarrow> Inl e
        | Inr adj_p \<Rightarrow> build_out to_float (zip (all_pairs (nonempty_groups groups)) adj_p) [])"
proof -
  have pairs: "tested_pairs (map fst groups) (group_labels groups) = all_pairs (nonempty_groups groups)"
    by (simp only: tested_pairs_eq filter_nonempty_keys [OF assms(2)])
  define x where "x = concat (map snd groups)"
  define var where "var = (real (length x) * (real (length x) + 1) / 12) * tie_correction x"
  define raw_p where "raw_p = map (\<lambda>(g1, g2). pair_p var (rankdata x) (group_labels groups) g1 g2)
      (all_pairs (nonempty_groups groups))"
  have "dunn_posthoc to_float groups p_adjust =
       (case adjust p_adjust raw_p of
          Inl e \<Rightarrow> Inl e
        | Inr adj_p \<Rightarrow> build_out to_float (zip (all_pairs (nonempty_groups groups)) adj_p) [])"
    unfolding dunn_posthoc_def Let_def pairs
    using assms(1) by (simp add: concatenate_def raw_p_def var_def x_def)
  moreover have "length raw_p = length (all_pairs (nonempty_groups groups))"
    by (simp add: raw_p_def)
  ultimately show ?thesis by blast
qed

subsection \<open>The tie correction\<close>

text \<open>
  The 64-bit tie term is the specification's tie term modulo \<open>2\<^sup>6\<^sup>4\<close>, and is equal
  to it as long as \<open>N\<^sup>3 - N\<close> is below \<open>2\<^sup>6\<^sup>3\<close>, that is for at most
  \<open>2\<^sup>2\<^sup>1 = 2097152\<close> pooled observations.
\<close>

lemma of_int_sum_list_word:
  "sum_list (map (\<lambda>v. (of_int (f v) :: 64 word)) xs) = of_int (sum_list (map f xs))"
  by (induction xs) simp_all

lemma tie_term_word: "tie_term x = of_int (tie_sum x)"
proof -
  have "tie_term x
      = sum_list (map (\<lambda>v. (of_int (int (count_list x v) ^ 3 - int (count_list x v)) :: 64 word))
          (sort (remdups x)))"
    by (simp add: tie_term_def unique_counts_def comp_def)
  also have "\<dots> = of_int (sum_list (map (\<lambda>v. int (count_list x v) ^ 3 - int (count_list x v))
          (sort (remdups x))))"
    by (rule of_int_sum_list_word)
  also have "sum_list (map (\<lambda>v. int (count_list x v) ^ 3 - int (count_list x v)) (sort (remdups x)))
      = (\<Sum>v\<in>set (sort (remdups x)). int (count_list x v) ^ 3 - int (count_list x v))"
    by (rule sum_list_distinct_conv_sum_set) simp
  finally show ?thesis by (simp add: tie_sum_def)
qed

lemma sint_tie_term: "sint (tie_term x) = signed_take_bit 63 (tie_sum x)"
  by (simp add: tie_term_word signed_of_int)

lemma count_list_distinct: "distinct xs \<Longrightarrow> v \<in> set xs \<Longrightarrow> count_list xs v = 1"
  by (induction xs) (auto simp: count_list_0_iff)

lemma tie_sum_distinct: "distinct x \<Longrightarrow> tie_sum x = 0"
  by (simp add: tie_sum_def count_list_distinct)

lemma tie_term_distinct: "distinct x \<Longrightarrow> tie_term x = 0"
  by (simp add: tie_term_word tie_sum_distinct)

lemma tie_divisor_pos: "1 < N \<Longrightarrow> 0 < tie_divisor N"
proof -
  assume N: "1 < N"
  have "tie_divisor N = int N * ((int N - 1) * (int N + 1))"
    by (simp add: tie_divisor_def power3_eq_cube algebra_simps)
  moreover have "0 < int N * ((int N - 1) * (int N + 1))"
    using N by (intro mult_pos_pos) auto
  ultimately show ?thesis by simp
qed

lemma cube_add: "((p::nat) + q) ^ 3 = p ^ 3 + q ^ 3 + 3 * p * q * (p + q)"
  by (simp add: power3_eq_cube algebra_simps)

lemma sum_cubes_le:
  fixes c :: "'a \<Rightarrow> nat"
  shows "finite S \<Longrightarrow> (\<Sum>v\<in>S. c v ^ 3) \<le> (\<Sum>v\<in>S. c v) ^ 3"
proof (induction S rule: finite_induct)
  case empty
  then show ?case by simp
next
  case (insert x F)
  have "(\<Sum>v\<in>insert x F. c v ^ 3) = c x ^ 3 + (\<Sum>v\<in>F. c v ^ 3)"
    using insert.hyps by simp
  also have "\<dots> \<le> c x ^ 3 + (\<Sum>v\<in>F. c v) ^ 3"
    using insert.IH by simp
  also have "\<dots> \<le> (c x + (\<Sum>v\<in>F. c v)) ^ 3"
    by (simp add: cube_add)
  finally show ?case using insert.hyps by simp
qed

lemma sum_cubes_less:
  fixes c :: "'a \<Rightarrow> nat"
  assumes "finite S" and "a \<in> S" and "b \<in> S" and "a \<noteq> b" and pos: "\<forall>v\<in>S. 0 < c v"
  shows "(\<Sum>v\<in>S. c v ^ 3) < (\<Sum>v\<in>S. c v) ^ 3"
proof -
  let ?T = "S - {a}"
  have fin: "finite ?T" and aT: "a \<notin> ?T" and S: "S = insert a ?T"
    using assms(1,2) by auto
  have bT: "b \<in> ?T" using assms(3,4) by simp
  have "c b \<le> (\<Sum>v\<in>?T. c v)"
    using fin bT by (meson member_le_sum zero_le)
  with pos assms(3) have T_pos: "0 < (\<Sum>v\<in>?T. c v)" by (meson less_le_trans)
  have a_pos: "0 < c a" using pos assms(2) by simp
  have "(\<Sum>v\<in>S. c v ^ 3) = c a ^ 3 + (\<Sum>v\<in>?T. c v ^ 3)"
    using assms(1,2) by (rule sum.remove)
  also have "\<dots> \<le> c a ^ 3 + (\<Sum>v\<in>?T. c v) ^ 3"
    using sum_cubes_le [OF fin, of c] by simp
  also have "\<dots> < (c a + (\<Sum>v\<in>?T. c v)) ^ 3"
    using a_pos T_pos by (simp add: cube_add)
  also have "\<dots> = (\<Sum>v\<in>S. c v) ^ 3"
    using sum.remove [OF assms(1,2), of c] by simp
  finally show ?thesis .
qed

lemma tie_sum_eq:
  "tie_sum x = int (\<Sum>v\<in>set x. count_list x v ^ 3) - int (length x)"
proof -
  have "(\<Sum>v\<in>set x. count_list x v) = length x"
    by (rule sum_count_set) simp_all
  then have "int (length x) = int (\<Sum>v\<in>set x. count_list x v)" by simp
  also have "\<dots> = (\<Sum>v\<in>set x. int (count_list x v))" by (rule of_nat_sum)
  finally have len: "(\<Sum>v\<in>set x. int (count_list x v)) = int (length x)" by (rule sym)
  have "tie_sum x = (\<Sum>v\<in>set x. int (count_list x v) ^ 3) - (\<Sum>v\<in>set x. int (count_list x v))"
    by (simp add: tie_sum_def sum_subtractf)
  also have "(\<Sum>v\<in>set x. int (count_list x v) ^ 3) = int (\<Sum>v\<in>set x. count_list x v ^ 3)"
    by simp
  finally show ?thesis by (simp only: len)
qed

lemma tie_sum_nonneg: "0 \<le> tie_sum x"
proof -
  have "0 \<le> int (count_list x v) ^ 3 - int (count_list x v)" for v
  proof -
    have "count_list x v \<le> count_list x v ^ 3"
      by (cases "count_list x v = 0") (simp_all add: self_le_power)
    then have "int (count_list x v) \<le> int (count_list x v) ^ 3"
      by (metis of_nat_le_iff of_nat_power)
    then show ?thesis by simp
  qed
  then show ?thesis unfolding tie_sum_def by (intro sum_nonneg) simp
qed

lemma tie_sum_le_divisor: "tie_sum x \<le> tie_divisor (length x)"
proof -
  have "(\<Sum>v\<in>set x. count_list x v ^ 3) \<le> (\<Sum>v\<in>set x. count_list x v) ^ 3"
    by (rule sum_cubes_le) simp
  also have "(\<Sum>v\<in>set x. count_list x v) = length x"
    by (rule sum_count_set) simp_all
  finally have "int (\<Sum>v\<in>set x. count_list x v ^ 3) \<le> int (length x) ^ 3"
    by (metis of_nat_le_iff of_nat_power)
  then show ?thesis by (simp add: tie_sum_eq tie_divisor_def)
qed

lemma tie_divisor_small:
  assumes "N \<le> 2097152"
  shows "tie_divisor N < 2 ^ 63"
proof (cases "N = 0")
  case True
  then show ?thesis by (simp add: tie_divisor_def)
next
  case False
  have "int N ^ 3 \<le> 2097152 ^ 3" using assms by (intro power_mono) auto
  then have "int N ^ 3 \<le> 2 ^ 63" by simp
  with False show ?thesis by (simp add: tie_divisor_def)
qed

lemma tie_divisor_large:
  assumes "2097152 < N"
  shows "2 ^ 63 \<le> tie_divisor N"
proof -
  have N: "2097153 \<le> int N" using assms by simp
  then have "2097153 * 2097153 \<le> int N * int N" by (intro mult_mono) auto
  then have "2097153 * 2097153 - 1 \<le> int N * int N - 1" by simp
  with N have "2097153 * (2097153 * 2097153 - 1) \<le> int N * (int N * int N - 1)"
    by (intro mult_mono) auto
  moreover have "tie_divisor N = int N * (int N * int N - 1)"
    by (simp add: tie_divisor_def power3_eq_cube algebra_simps)
  ultimately show ?thesis by simp
qed

lemma sint_tie_term_fits:
  assumes "tie_sum x < 2 ^ 63"
  shows "sint (tie_term x) = tie_sum x"
proof -
  have "- (2 ^ 63) \<le> tie_sum x"
    using tie_sum_nonneg [of x] by simp
  with assms show ?thesis
    by (simp add: sint_tie_term signed_take_bit_int_eq_self)
qed

lemma tie_sum_small:
  assumes "length x \<le> 2097152"
  shows "tie_sum x < 2 ^ 63"
  using tie_sum_le_divisor [of x] tie_divisor_small [OF assms] by simp

lemma sint_tie_term_exact:
  assumes "length x \<le> 2097152"
  shows "sint (tie_term x) = tie_sum x"
  using assms by (intro sint_tie_term_fits tie_sum_small)

text \<open>
  Claim C8, amended. For a pooled sample of more than one observation the divisor
  \<open>N\<^sup>3 - N\<close> is not zero. When moreover the sum of \<open>t\<^sup>3 - t\<close> over the multiplicities
  \<open>t\<close> of the distinct values is below \<open>2\<^sup>6\<^sup>3\<close>, the tie correction is
  \<open>1 - (\<Sum> t\<^sup>3 - t) / (N\<^sup>3 - N)\<close>; for at most \<open>2\<^sup>2\<^sup>1 = 2097152\<close> observations both
  the sum and the divisor are below \<open>2\<^sup>6\<^sup>3\<close>. For at most one observation the tie
  correction is \<open>1\<close>, and for a sample without ties it is \<open>1\<close>.
\<close>

theorem tie_correction_formula:
  "(1 < length x \<longrightarrow> tie_divisor (length x) \<noteq> 0) \<and>
   (1 < length x \<and>
    (\<Sum>v\<in>set x. int (count_list x v) ^ 3 - int (count_list x v)) < 2 ^ 63 \<longrightarrow>
      tie_correction x =
        1 - real_of_int (\<Sum>v\<in>set x. int (count_list x v) ^ 3 - int (count_list x v))
            / real_of_int (int (length x) ^ 3 - int (length x))) \<and>
   (length x \<le> 2097152 \<longrightarrow>
      (\<Sum>v\<in>set x. int (count_list x v) ^ 3 - int (count_list x v)) < 2 ^ 63 \<and>
      int (length x) ^ 3 - int (length x) < 2 ^ 63) \<and>
   (length x \<le> 1 \<longrightarrow> tie_correction x = 1) \<and>
   (distinct x \<longrightarrow> tie_correction x = 1)"
proof (intro conjI impI)
  assume "1 < length x"
  then show "tie_divisor (length x) \<noteq> 0" using tie_divisor_pos [of "length x"] by simp
next
  assume "1 < length x \<and>
    (\<Sum>v\<in>set x. int (count_list x v) ^ 3 - int (count_list x v)) < 2 ^ 63"
  then have N: "1 < length x" and fits: "tie_sum x < 2 ^ 63"
    by (simp_all add: tie_sum_def)
  have "tie_correction x = 1 - real_of_int (tie_sum x) / real_of_int (tie_divisor (length x))"
    using N by (simp add: tie_correction_def Let_def sint_tie_term_fits [OF fits])
  then show "tie_correction x =
        1 - real_of_int (\<Sum>v\<in>set x. int (count_list x v) ^ 3 - int (count_list x v))
            / real_of_int (int (length x) ^ 3 - int (length x))"
    by (simp only: tie_sum_def tie_divisor_def)
next
  assume "length x \<le> 2097152"
  then show "(\<Sum>v\<in>set x. int (count_list x v) ^ 3 - int (count_list x v)) < 2 ^ 63"
    using tie_sum_small [of x] by (simp only: tie_sum_def)
next
  assume "length x \<le> 2097152"
  then show "int (length x) ^ 3 - int (length x) < 2 ^ 63"
    using tie_divisor_small [of "length x"] by (simp only: tie_divisor_def)
next
  assume "length x \<le> 1"
  then show "tie_correction x = 1" by (simp add: tie_correction_def)
next
  assume "distinct x"
  then show "tie_correction x = 1" by (simp add: tie_correction_def Let_def tie_term_distinct)
qed

text \<open>
  The theorem at \<open>[1, 1, 2]\<close> (three observations, tie sum \<open>2\<^sup>3 - 2 = 6\<close>), at \<open>[5]\<close>
  and at \<open>[1, 2, 3]\<close>.
\<close>

theorem tie_correction_formula_witness:
  "tie_divisor (length [1, 1, 2 :: real]) = 24 \<and>
   tie_correction [1, 1, 2] = 1 - 6 / 24 \<and>
   tie_correction [5] = 1 \<and>
   tie_correction [1, 2, 3] = 1"
  using tie_correction_formula [of "[1, 1, 2]"] tie_correction_formula [of "[5]"]
    tie_correction_formula [of "[1, 2, 3]"]
  by (simp add: tie_divisor_def)

text \<open>
  Claim C8 as stated fails for large samples. For \<open>2\<^sup>2\<^sup>1 + 2 = 2097154\<close> equal
  observations the sum \<open>t\<^sup>3 - t\<close> is \<open>N\<^sup>3 - N\<close>, which is above \<open>2\<^sup>6\<^sup>3\<close>, so that the
  formula gives \<open>1 - 1 = 0\<close>; the 64-bit tie term of line 57 has wrapped around to a
  negative number, and the tie correction computed from it is close to \<open>2\<close>.
\<close>

lemma tie_sum_replicate: "0 < n \<Longrightarrow> tie_sum (replicate n v) = int n ^ 3 - int n"
proof -
  assume "0 < n"
  then have s: "set (replicate n v) = {v}" by auto
  have c: "count_list (replicate n v) v = n" by (induction n) auto
  show ?thesis by (simp add: tie_sum_def s c)
qed

theorem tie_correction_overflow_counterexample:
  "length (replicate 2097154 (0::real)) = 2097154 \<and>
   tie_sum (replicate 2097154 0) = 9223398425156911110 \<and>
   tie_divisor 2097154 = 9223398425156911110 \<and>
   sint (tie_term (replicate 2097154 0)) = - 9223345648552640506 \<and>
   tie_correction (replicate 2097154 0) = 1 + 9223345648552640506 / 9223398425156911110"
proof -
  have ts: "tie_sum (replicate 2097154 (0::real)) = 9223398425156911110"
    by (simp add: tie_sum_replicate)
  have td: "tie_divisor 2097154 = 9223398425156911110"
    by (simp add: tie_divisor_def)
  have st: "sint (tie_term (replicate 2097154 (0::real))) = - 9223345648552640506"
    by (simp add: tie_term_word ts int_word_sint)
  show ?thesis
    by (simp add: ts td st tie_correction_def Let_def)
qed

text \<open>
  The tie correction, and with it the variance term of line 61, is positive as soon as
  the pooled sample has two different values, and it is zero when all values of a
  sample of at most \<open>2\<^sup>2\<^sup>1\<close> observations are equal: this is the case in which
  line 74 divides by zero.
\<close>

lemma tie_correction_pos:
  assumes "u \<in> set x" and "v \<in> set x" and "u \<noteq> v"
  shows "0 < tie_correction x"
proof -
  have "card {u, v} \<le> card (set x)" using assms(1,2) by (intro card_mono) auto
  also have "\<dots> \<le> length x" by (rule card_length)
  finally have N: "1 < length x" using assms(3) by simp
  have d: "0 < tie_divisor (length x)" using N by (rule tie_divisor_pos)
  have lt: "sint (tie_term x) < tie_divisor (length x)"
  proof (cases "length x \<le> 2097152")
    case True
    have pos: "\<forall>w\<in>set x. 0 < count_list x w"
      by (simp add: count_list_0_iff zero_less_iff_neq_zero)
    have "(\<Sum>w\<in>set x. count_list x w ^ 3) < (\<Sum>w\<in>set x. count_list x w) ^ 3"
      using assms pos by (intro sum_cubes_less [of "set x" u v]) auto
    also have "(\<Sum>w\<in>set x. count_list x w) = length x"
      by (rule sum_count_set) simp_all
    finally have "int (\<Sum>w\<in>set x. count_list x w ^ 3) < int (length x) ^ 3"
      by (metis of_nat_less_iff of_nat_power)
    then have "tie_sum x < tie_divisor (length x)"
      by (simp add: tie_sum_eq tie_divisor_def)
    then show ?thesis by (simp add: sint_tie_term_exact [OF True])
  next
    case False
    then have "2 ^ 63 \<le> tie_divisor (length x)" by (intro tie_divisor_large) simp
    moreover have "sint (tie_term x) < 2 ^ 63" using sint_lt [of "tie_term x"] by simp
    ultimately show ?thesis by simp
  qed
  have "real_of_int (sint (tie_term x)) < real_of_int (tie_divisor (length x))"
    using lt by (simp only: of_int_less_iff)
  moreover have "0 < real_of_int (tie_divisor (length x))"
    using d by (simp only: of_int_0_less_iff)
  ultimately have "real_of_int (sint (tie_term x)) / real_of_int (tie_divisor (length x)) < 1"
    by (simp only: divide_less_eq_1_pos)
  then show ?thesis using N by (simp add: tie_correction_def Let_def)
qed

lemma tie_correction_constant:
  assumes "1 < n" and "n \<le> 2097152"
  shows "tie_correction (replicate n v) = 0"
proof -
  have "sint (tie_term (replicate n v)) = tie_sum (replicate n v)"
    using assms(2) by (intro sint_tie_term_exact) simp
  also have "\<dots> = tie_divisor n"
    using assms(1) by (simp add: tie_sum_replicate tie_divisor_def)
  finally have "sint (tie_term (replicate n v)) = tie_divisor n" .
  moreover have "tie_divisor n \<noteq> 0" using tie_divisor_pos [OF assms(1)] by simp
  ultimately show ?thesis using assms(1) by (simp add: tie_correction_def Let_def)
qed

subsection \<open>The keys of the result\<close>

lemma dunn_posthoc_supported:
  assumes ne: "groups \<noteq> []" and d: "distinct (map fst groups)"
    and fl: "\<forall>g\<in>set (nonempty_groups groups). to_float g \<noteq> None"
    and m: "str_lower p_adjust = ''holm'' \<or> str_lower p_adjust = ''bonferroni''"
  shows "\<exists>out. dunn_posthoc to_float groups p_adjust = Inr out \<and>
           map fst out = map (canonical to_float) (all_pairs (nonempty_groups groups))"
proof -
  let ?pairs = "all_pairs (nonempty_groups groups)"
  from dunn_posthoc_unfold [OF ne d, of to_float p_adjust] obtain raw_p where
    len: "length raw_p = length ?pairs" and
    unf: "dunn_posthoc to_float groups p_adjust =
       (case adjust p_adjust raw_p of
          Inl e \<Rightarrow> Inl e
        | Inr adj_p \<Rightarrow> build_out to_float (zip ?pairs adj_p) [])"
    by blast
  from adjust_supported [OF m] obtain adj_p where adj: "adjust p_adjust raw_p = Inr adj_p" by blast
  with len have len': "length adj_p = length ?pairs" by (simp add: adjust_length)
  then have fst_zip: "map fst (zip ?pairs adj_p) = ?pairs" by simp
  have conv: "\<forall>(a, b)\<in>set (map fst (zip ?pairs adj_p)). to_float a \<noteq> None \<and> to_float b \<noteq> None"
    unfolding fst_zip using fl all_pairs_members [of _ _ "nonempty_groups groups"] by blast
  have keys: "map (\<lambda>e. canonical to_float (fst e)) (zip ?pairs adj_p) = map (canonical to_float) ?pairs"
  proof -
    have "map (\<lambda>e. canonical to_float (fst e)) (zip ?pairs adj_p)
        = map (canonical to_float) (map fst (zip ?pairs adj_p))" by (simp add: comp_def)
    then show ?thesis by (simp only: fst_zip)
  qed
  have dist: "distinct (map fst [] @ map (\<lambda>e. canonical to_float (fst e)) (zip ?pairs adj_p))"
    unfolding keys using canonical_distinct [OF distinct_nonempty_groups [OF d]] by simp
  define out where "out = [] @ map (\<lambda>e. (canonical to_float (fst e), snd e)) (zip ?pairs adj_p)"
  have b: "build_out to_float (zip ?pairs adj_p) [] = Inr out"
    unfolding out_def by (rule build_out_appends [OF conv dist])
  have r1: "dunn_posthoc to_float groups p_adjust = Inr out"
    using unf adj b by simp
  have "map fst out = map (\<lambda>e. canonical to_float (fst e)) (zip ?pairs adj_p)"
    by (simp add: out_def comp_def)
  then have r2: "map fst out = map (canonical to_float) ?pairs"
    using keys by simp
  show ?thesis
    by (rule exI [of _ out]) (intro conjI r1 r2)
qed

lemma canonical_key_props:
  assumes p: "p \<in> set (all_pairs ne)" and dne: "distinct ne"
    and fl: "\<forall>g\<in>set ne. to_float g \<noteq> None"
    and k: "canonical to_float p = (a, b)"
  shows "a \<in> set ne \<and> b \<in> set ne \<and> a \<noteq> b \<and>
         (\<exists>x y. to_float a = Some x \<and> to_float b = Some y \<and> x \<le> y)"
proof -
  obtain c d where pcd: "p = (c, d)" by (cases p)
  with p have cd: "(c, d) \<in> set (all_pairs ne)" by simp
  from cd have mem: "c \<in> set ne" "d \<in> set ne" using all_pairs_members by fast+
  from cd have neq: "c \<noteq> d" by (rule all_pairs_irreflexive [OF dne])
  from canonical_cases [of to_float c d] k pcd
  have sw: "(a = c \<and> b = d) \<or> (a = d \<and> b = c)" by simp
  from mem fl obtain u v where uv: "to_float c = Some u" "to_float d = Some v" by blast
  have "\<exists>x y. to_float a = Some x \<and> to_float b = Some y \<and> x \<le> y"
    using uv k [unfolded pcd] by (rule canonical_sorted)
  with sw mem neq show ?thesis by blast
qed

lemma canonical_key_total:
  assumes "a \<in> set ne" "b \<in> set ne" "a \<noteq> b"
  shows "(a, b) \<in> canonical to_float ` set (all_pairs ne) \<or>
         (b, a) \<in> canonical to_float ` set (all_pairs ne)"
proof -
  from all_pairs_total [OF assms] consider
    "(a, b) \<in> set (all_pairs ne)" | "(b, a) \<in> set (all_pairs ne)" by blast
  then show ?thesis
  proof cases
    case 1
    then have "canonical to_float (a, b) \<in> canonical to_float ` set (all_pairs ne)" by (rule imageI)
    with canonical_cases [of to_float a b] show ?thesis by metis
  next
    case 2
    then have "canonical to_float (b, a) \<in> canonical to_float ` set (all_pairs ne)" by (rule imageI)
    with canonical_cases [of to_float b a] show ?thesis by metis
  qed
qed

lemma str_lower_HOLM: "str_lower ''HOLM'' = ''holm''"
  by code_simp

lemma str_lower_holm: "str_lower ''holm'' = ''holm''"
  by code_simp

lemma str_lower_bonferroni: "str_lower ''bonferroni'' = ''bonferroni''"
  by code_simp

lemma tested_pairs_two:
  "tested_pairs [a, b] labels =
     (if group_size labels a = 0 \<or> group_size labels b = 0 then [] else [(a, b)])"
  by (simp add: tested_pairs_eq)

lemma holm_adjust_single: "holm_adjust [p] = [clip 0 1 p]"
  by (simp add: holm_adjust_def holm_with_def argsort_def enumerate_eq_zip)

text \<open>
  Claim C3, amended. For a dictionary with at least one group whose \<open>k\<close> non-empty
  groups all have identifiers that \<^verbatim>\<open>float()\<close> accepts, and a supported method,
  \<open>dunn_posthoc\<close> returns a mapping with exactly \<open>C(k, 2)\<close> entries and distinct keys:
  every key is a pair of two different non-empty groups sorted by numeric value, and
  every two different non-empty groups occur as a key in one of the two orders.
\<close>

theorem dunn_posthoc_pair_count:
  assumes "groups \<noteq> []" and "distinct (map fst groups)"
    and "\<forall>g\<in>set (nonempty_groups groups). to_float g \<noteq> None"
    and "str_lower p_adjust = ''holm'' \<or> str_lower p_adjust = ''bonferroni''"
  shows "\<exists>out. dunn_posthoc to_float groups p_adjust = Inr out \<and>
           length out = length (nonempty_groups groups) choose 2 \<and>
           distinct (map fst out) \<and>
           (\<forall>(a, b)\<in>fst ` set out.
               a \<in> set (nonempty_groups groups) \<and> b \<in> set (nonempty_groups groups) \<and> a \<noteq> b \<and>
               (\<exists>x y. to_float a = Some x \<and> to_float b = Some y \<and> x \<le> y)) \<and>
           (\<forall>a\<in>set (nonempty_groups groups). \<forall>b\<in>set (nonempty_groups groups).
               a \<noteq> b \<longrightarrow> (a, b) \<in> fst ` set out \<or> (b, a) \<in> fst ` set out)"
proof -
  define ne where "ne = nonempty_groups groups"
  from dunn_posthoc_supported [OF assms] obtain out where
    out: "dunn_posthoc to_float groups p_adjust = Inr out" and
    keys: "map fst out = map (canonical to_float) (all_pairs ne)"
    unfolding ne_def by blast
  have dne: "distinct ne" unfolding ne_def using assms(2) by (rule distinct_nonempty_groups)
  have fl: "\<forall>g\<in>set ne. to_float g \<noteq> None" unfolding ne_def by (rule assms(3))
  have "length out = length (map fst out)" by simp
  also have "\<dots> = length ne choose 2" unfolding keys by (simp add: length_all_pairs)
  finally have len: "length out = length ne choose 2" .
  have dist: "distinct (map fst out)"
    unfolding keys by (rule canonical_distinct [OF dne])
  have "fst ` set out = set (map fst out)" by simp
  also have "\<dots> = canonical to_float ` set (all_pairs ne)" unfolding keys by simp
  finally have set_keys: "fst ` set out = canonical to_float ` set (all_pairs ne)" .
  have sorted: "\<forall>(a, b)\<in>fst ` set out.
      a \<in> set ne \<and> b \<in> set ne \<and> a \<noteq> b \<and> (\<exists>x y. to_float a = Some x \<and> to_float b = Some y \<and> x \<le> y)"
  proof (rule ballI)
    fix k assume "k \<in> fst ` set out"
    then obtain p where p: "p \<in> set (all_pairs ne)" "canonical to_float p = k"
      unfolding set_keys by blast
    obtain a b where ab: "k = (a, b)" by (cases k)
    from canonical_key_props [OF p(1) dne fl p(2) [unfolded ab]] ab
    show "case k of (a, b) \<Rightarrow>
      a \<in> set ne \<and> b \<in> set ne \<and> a \<noteq> b \<and> (\<exists>x y. to_float a = Some x \<and> to_float b = Some y \<and> x \<le> y)"
      by simp
  qed
  have total: "\<forall>a\<in>set ne. \<forall>b\<in>set ne. a \<noteq> b \<longrightarrow> (a, b) \<in> fst ` set out \<or> (b, a) \<in> fst ` set out"
    unfolding set_keys by (intro ballI impI canonical_key_total)
  show ?thesis
    unfolding ne_def [symmetric]
    by (rule exI [of _ out]) (intro conjI out len dist sorted total)
qed

text \<open>
  The theorem at a dictionary with three non-empty groups and one empty group.
\<close>

theorem dunn_posthoc_pair_count_witness:
  "nonempty_groups [(Numeric 1, [1]), (Numeric 2, []), (Numeric 3, [3]), (Numeric 4, [2])]
     = [Numeric 1, Numeric 3, Numeric 4] \<and>
   (\<exists>out. dunn_posthoc py_float [(Numeric 1, [1]), (Numeric 2, []), (Numeric 3, [3]), (Numeric 4, [2])] ''holm''
            = Inr out \<and> length out = 3 \<and> distinct (map fst out))"
proof -
  let ?G = "[(Numeric 1, [1]), (Numeric 2, []), (Numeric 3, [3]), (Numeric 4, [2::real])]"
  have ne: "nonempty_groups ?G = [Numeric 1, Numeric 3, Numeric 4]"
    by (simp add: nonempty_groups_def)
  have "\<exists>out. dunn_posthoc py_float ?G ''holm'' = Inr out \<and>
           length out = length (nonempty_groups ?G) choose 2 \<and>
           distinct (map fst out) \<and>
           (\<forall>(a, b)\<in>fst ` set out.
               a \<in> set (nonempty_groups ?G) \<and> b \<in> set (nonempty_groups ?G) \<and> a \<noteq> b \<and>
               (\<exists>x y. py_float a = Some x \<and> py_float b = Some y \<and> x \<le> y)) \<and>
           (\<forall>a\<in>set (nonempty_groups ?G). \<forall>b\<in>set (nonempty_groups ?G).
               a \<noteq> b \<longrightarrow> (a, b) \<in> fst ` set out \<or> (b, a) \<in> fst ` set out)"
    by (rule dunn_posthoc_pair_count) (simp_all add: ne str_lower_holm)
  then obtain out where "dunn_posthoc py_float ?G ''holm'' = Inr out"
    "length out = length (nonempty_groups ?G) choose 2" "distinct (map fst out)" by blast
  then have "dunn_posthoc py_float ?G ''holm'' = Inr out \<and> length out = 3 \<and> distinct (map fst out)"
    by (simp add: ne choose_two)
  with ne show ?thesis by blast
qed

text \<open>
  Claim C3 as stated fails: two non-empty groups named \<^verbatim>\<open>"x"\<close> and \<^verbatim>\<open>"y"\<close> give no
  mapping, since line 91 calls \<^verbatim>\<open>float("x")\<close>.
\<close>

theorem dunn_posthoc_pair_count_counterexample:
  "dunn_posthoc py_float [(Label ''x'', [1]), (Label ''y'', [2])] ''holm'' = Inl ValueError_float"
  by (simp add: dunn_posthoc_def concatenate_def Let_def group_labels_def tested_pairs_two
      group_size_def adjust_def str_lower_holm holm_adjust_single sorted_pair_def)

text \<open>
  Claim C6, at the input where the code departs from it: for a dictionary with no
  group, \<open>dunn_posthoc\<close> does not return the empty map; \<^verbatim>\<open>np.concatenate\<close> raises
  \<^verbatim>\<open>ValueError\<close> on the empty list of arrays, whatever the method.
\<close>

theorem dunn_posthoc_empty_groups:
  "dunn_posthoc to_float [] p_adjust = Inl ValueError_concatenate"
  by (simp add: dunn_posthoc_def concatenate_def)

lemma all_pairs_short: "length xs < 2 \<Longrightarrow> all_pairs xs = []"
  by (cases xs rule: all_pairs.cases) (auto simp: length_Suc_conv)

text \<open>
  The rest of claim C6 holds: with at least one group, fewer than two non-empty
  groups and a supported method, the result is the empty map, whatever the
  identifiers are.
\<close>

lemma dunn_posthoc_few_groups:
  assumes "groups \<noteq> []" and "distinct (map fst groups)"
    and "length (nonempty_groups groups) < 2"
    and "str_lower p_adjust = ''holm'' \<or> str_lower p_adjust = ''bonferroni''"
  shows "dunn_posthoc to_float groups p_adjust = Inr []"
proof -
  have fl: "\<forall>g\<in>set (nonempty_groups groups). (\<lambda>g. Some (0::real)) g \<noteq> None" by simp
  from dunn_posthoc_unfold [OF assms(1,2), of to_float p_adjust] obtain raw_p where
    len: "length raw_p = length (all_pairs (nonempty_groups groups))" and
    unf: "dunn_posthoc to_float groups p_adjust =
       (case adjust p_adjust raw_p of
          Inl e \<Rightarrow> Inl e
        | Inr adj_p \<Rightarrow> build_out to_float (zip (all_pairs (nonempty_groups groups)) adj_p) [])"
    by blast
  from adjust_supported [OF assms(4)] obtain adj_p where "adjust p_adjust raw_p = Inr adj_p" by blast
  with unf all_pairs_short [OF assms(3)] show ?thesis by simp
qed

subsection \<open>Two groups with the same observations\<close>

text \<open>The series that defines \<open>norm_sf\<close> converges for every argument.\<close>

lemma norm_sf_summable:
  "summable (\<lambda>n. (- 1) ^ n * z ^ (2 * n + 1) / (fact n * 2 ^ n * real (2 * n + 1)))"
proof (rule summable_comparison_test)
  show "summable (\<lambda>n. \<bar>z\<bar> * (inverse (fact n) * (z\<^sup>2 / 2) ^ n))"
    by (intro summable_mult summable_exp)
  show "\<exists>N. \<forall>n\<ge>N. norm ((- 1) ^ n * z ^ (2 * n + 1) / (fact n * 2 ^ n * real (2 * n + 1)))
      \<le> \<bar>z\<bar> * (inverse (fact n) * (z\<^sup>2 / 2) ^ n)"
  proof (intro exI allI impI)
    fix n :: nat
    define r where "r = \<bar>z\<bar> * (z\<^sup>2) ^ n / (fact n * 2 ^ n)"
    have r0: "0 \<le> r" by (simp add: r_def)
    have "norm ((- 1) ^ n * z ^ (2 * n + 1) / (fact n * 2 ^ n * real (2 * n + 1)))
        = \<bar>z\<bar> ^ (2 * n + 1) / (fact n * 2 ^ n * real (2 * n + 1))"
      by (simp add: abs_mult power_abs)
    also have "\<bar>z\<bar> ^ (2 * n + 1) = \<bar>z\<bar> * (z\<^sup>2) ^ n"
      by (simp add: power_mult [symmetric] power2_eq_square power_abs [symmetric] abs_mult flip: power_mult_distrib power2_eq_square)
    also have "\<bar>z\<bar> * (z\<^sup>2) ^ n / (fact n * 2 ^ n * real (2 * n + 1)) = r / real (2 * n + 1)"
      by (simp add: r_def)
    also have "\<dots> \<le> r"
    proof -
      have "r * 1 \<le> r * (1 + 2 * real n)" using r0 by (intro mult_left_mono) auto
      then show ?thesis by (simp add: divide_le_eq)
    qed
    also have "r = \<bar>z\<bar> * (inverse (fact n) * (z\<^sup>2 / 2) ^ n)"
      by (simp add: r_def power_divide field_simps)
    finally show "norm ((- 1) ^ n * z ^ (2 * n + 1) / (fact n * 2 ^ n * real (2 * n + 1)))
      \<le> \<bar>z\<bar> * (inverse (fact n) * (z\<^sup>2 / 2) ^ n)" .
  qed
qed

lemma norm_sf_zero: "norm_sf 0 = 1 / 2"
  by (simp add: norm_sf_def)

lemma rank_sum_replicate:
  "length rs = n \<Longrightarrow>
   sum_list (map fst (filter (\<lambda>(ri, l). l = g) (zip rs (replicate n c)))) = (if c = g then sum_list rs else 0)"
  by (induction rs arbitrary: n) auto

lemma rank_sum_two_groups:
  assumes "a \<noteq> b" "length r1 = n" "length r2 = n"
  shows "rank_sum (r1 @ r2) (replicate n a @ replicate n b) a = sum_list r1"
    and "rank_sum (r1 @ r2) (replicate n a @ replicate n b) b = sum_list r2"
  using assms by (simp_all add: rank_sum_def rank_sum_replicate)

lemma group_size_two_groups:
  assumes "a \<noteq> b"
  shows "group_size (replicate n a @ replicate m b) a = n"
    and "group_size (replicate n a @ replicate m b) b = m"
  using assms by (simp_all add: group_size_def)

lemma rankdata_append_same:
  "\<exists>rs. length rs = length vs \<and> rankdata (vs @ vs) = rs @ rs"
  by (rule exI [of _ "map (\<lambda>v. real (length (filter (\<lambda>u. u < v) (vs @ vs)))
              + (real (length (filter (\<lambda>u. u = v) (vs @ vs))) + 1) / 2) vs"])
     (simp add: rankdata_def)

lemma pair_p_identical:
  assumes "a \<noteq> b"
  shows "pair_p var (rankdata (vs @ vs)) (replicate (length vs) a @ replicate (length vs) b) a b = 1"
proof -
  from rankdata_append_same [of vs] obtain rs where
    rs: "length rs = length vs" "rankdata (vs @ vs) = rs @ rs" by blast
  show ?thesis
    using assms rs
    by (simp add: pair_p_def Let_def rank_sum_two_groups group_size_two_groups norm_sf_zero)
qed

lemma dunn_posthoc_identical:
  assumes "to_float a = Some x" and "to_float b = Some y" and "a \<noteq> b" and "vs \<noteq> []"
    and "str_lower p_adjust = ''holm'' \<or> str_lower p_adjust = ''bonferroni''"
  shows "dunn_posthoc to_float [(a, vs), (b, vs)] p_adjust
     = Inr [(if y < x then (b, a) else (a, b), 1)]"
proof -
  have labels: "group_labels [(a, vs), (b, vs)] = replicate (length vs) a @ replicate (length vs) b"
    by (simp add: group_labels_def)
  have pairs: "tested_pairs [a, b] (replicate (length vs) a @ replicate (length vs) b) = [(a, b)]"
    using assms(3,4) by (simp add: tested_pairs_two group_size_two_groups)
  have adj: "adjust p_adjust [1] = Inr [1]"
    using assms(5) by (auto simp: adjust_def holm_adjust_single clip_def)
  have key: "sorted_pair to_float a b = Inr (if y < x then (b, a) else (a, b))"
    using assms(1,2) by (simp add: sorted_pair_def)
  show ?thesis
    using assms(3)
    by (simp add: dunn_posthoc_def concatenate_def Let_def labels pairs pair_p_identical adj key)
qed

text \<open>
  Claim C4, amended. For two groups with the same sequence of observations, in which
  at least two values differ, and identifiers that \<^verbatim>\<open>float()\<close> accepts,
  \<open>dunn_posthoc\<close> returns the p-value \<open>1\<close> for the pair sorted by numeric value, with
  either method; the tie correction is positive, so the statistic of line 74 is a
  quotient by a number that is not zero.
\<close>

theorem dunn_posthoc_identical_groups:
  assumes "to_float a = Some x" and "to_float b = Some y" and "a \<noteq> b"
    and "u \<in> set vs" and "v \<in> set vs" and "u \<noteq> v"
    and "str_lower p_adjust = ''holm'' \<or> str_lower p_adjust = ''bonferroni''"
  shows "dunn_posthoc to_float [(a, vs), (b, vs)] p_adjust
           = Inr [(if y < x then (b, a) else (a, b), 1)] \<and>
         0 < tie_correction (vs @ vs)"
proof
  from assms(4) have "vs \<noteq> []" by auto
  with assms(1-3) show "dunn_posthoc to_float [(a, vs), (b, vs)] p_adjust
      = Inr [(if y < x then (b, a) else (a, b), 1)]"
    using assms(7) by (rule dunn_posthoc_identical)
  show "0 < tie_correction (vs @ vs)"
    using assms(4-6) by (intro tie_correction_pos [of u _ v]) auto
qed

text \<open>
  The theorem for the observations \<open>[1, 2, 3]\<close> and the identifiers \<open>1\<close> and \<open>2\<close>, with
  both methods.
\<close>

theorem dunn_posthoc_identical_groups_witness:
  "py_float (Numeric 1) = Some 1 \<and> py_float (Numeric 2) = Some 2 \<and>
   dunn_posthoc py_float [(Numeric 1, [1, 2, 3]), (Numeric 2, [1, 2, 3])] ''holm''
     = Inr [((Numeric 1, Numeric 2), 1)] \<and>
   dunn_posthoc py_float [(Numeric 1, [1, 2, 3]), (Numeric 2, [1, 2, 3])] ''bonferroni''
     = Inr [((Numeric 1, Numeric 2), 1)] \<and>
   0 < tie_correction ([1, 2, 3] @ [1, 2, 3])"
  using dunn_posthoc_identical_groups [of py_float "Numeric 1" 1 "Numeric 2" 2 1 "[1, 2, 3]" 2 "''holm''"]
    dunn_posthoc_identical_groups [of py_float "Numeric 1" 1 "Numeric 2" 2 1 "[1, 2, 3]" 2 "''bonferroni''"]
  by (simp add: str_lower_holm str_lower_bonferroni)

text \<open>
  Claim C4 as stated fails: with the identifiers \<^verbatim>\<open>"A"\<close> and \<^verbatim>\<open>"B"\<close> of its example
  no p-value is returned, since line 91 calls \<^verbatim>\<open>float("A")\<close>.
\<close>

theorem dunn_posthoc_labels_counterexample:
  "dunn_posthoc py_float [(Label ''A'', [1, 2, 3]), (Label ''B'', [1, 2, 3])] ''holm''
     = Inl ValueError_float"
  by (simp add: dunn_posthoc_def concatenate_def Let_def group_labels_def tested_pairs_two
      group_size_def adjust_def str_lower_holm holm_adjust_single sorted_pair_def)

subsection \<open>The adjustment method\<close>

text \<open>
  Claim C5, amended. \<open>dunn_posthoc\<close> raises the \<^verbatim>\<open>ValueError\<close> of line 87 exactly when
  the dictionary has at least one group and the lower-cased method name is neither
  \<^verbatim>\<open>"holm"\<close> nor \<^verbatim>\<open>"bonferroni"\<close>. The test follows the ranking and the raw
  p-values (lines 36--79) and precedes the construction of the output, so no entry of
  a result exists when it raises; an empty dictionary fails before, in line 44.
\<close>

theorem dunn_posthoc_method_error:
  "dunn_posthoc to_float groups p_adjust = Inl ValueError_p_adjust \<longleftrightarrow>
     groups \<noteq> [] \<and> str_lower p_adjust \<noteq> ''holm'' \<and> str_lower p_adjust \<noteq> ''bonferroni''"
proof (cases "groups = []")
  case True
  then show ?thesis by (simp add: dunn_posthoc_def concatenate_def)
next
  case False
  show ?thesis
  proof (cases "str_lower p_adjust = ''holm'' \<or> str_lower p_adjust = ''bonferroni''")
    case True
    then obtain adj where "\<And>raw_p. \<exists>adj_p. adjust p_adjust raw_p = Inr adj_p"
      using adjust_supported by blast
    have "dunn_posthoc to_float groups p_adjust \<noteq> Inl ValueError_p_adjust"
    proof
      assume a: "dunn_posthoc to_float groups p_adjust = Inl ValueError_p_adjust"
      then show False
        using False True
        by (auto simp: dunn_posthoc_def concatenate_def Let_def adjust_def
            split: if_splits dest!: build_out_error)
    qed
    with True show ?thesis by auto
  next
    case unsupported: False
    then show ?thesis
      using False by (simp add: dunn_posthoc_def concatenate_def Let_def adjust_unsupported)
  qed
qed

text \<open>
  Claim C5 as stated fails: the name \<^verbatim>\<open>"HOLM"\<close> is outside \<^verbatim>\<open>{"holm", "bonferroni"}\<close>
  and is accepted.
\<close>

theorem dunn_posthoc_upper_case_counterexample:
  "dunn_posthoc py_float [(Numeric 1, [1, 2, 3]), (Numeric 2, [1, 2, 3])] ''HOLM''
     = Inr [((Numeric 1, Numeric 2), 1)]"
  using dunn_posthoc_identical [of py_float "Numeric 1" 1 "Numeric 2" 2 "[1, 2, 3]" "''HOLM''"]
  by (simp add: str_lower_HOLM)

end
